theory Spec2Isabelle
  imports Complex_Main
begin

section \<open>Python values and errors\<close>

text \<open>
  The exceptions the modelled functions can raise. \<open>IndexError\<close> is a list or register
  index out of range, \<open>ValueError\<close> a failed conversion or a math domain error,
  \<open>ZeroDivisionError\<close> a division by zero, \<open>CircuitError\<close> a qubit index that the
  circuit does not have.
\<close>

datatype error = IndexError | ValueError | ZeroDivisionError | CircuitError

section \<open>hashing.py\<close>

text \<open>
  \<^verbatim>\<open>primes = [17, 19, 23, 29, 31, 37, 41, 43, 47]; return primes[prime_index - 1]\<close>

  A Python list subscript with a negative index counts from the end of the list, and
  raises IndexError only when the index is outside \<open>-len .. len - 1\<close>.
\<close>

definition primes :: "nat list" where
  "primes = [17, 19, 23, 29, 31, 37, 41, 43, 47]"

definition py_subscript :: "'a list \<Rightarrow> int \<Rightarrow> error + 'a" where
  "py_subscript xs i =
     (if 0 \<le> i \<and> i < int (length xs) then Inr (xs ! nat i)
      else if i < 0 \<and> - int (length xs) \<le> i then Inr (xs ! nat (int (length xs) + i))
      else Inl IndexError)"

definition get_prime :: "int \<Rightarrow> error + nat" where
  "get_prime prime_index = py_subscript primes (prime_index - 1)"

text \<open>
  \<^verbatim>\<open>r = int.from_bytes(substring.encode('utf-8'), 'big'); h = (r * p) % (2 ** hash_bits)\<close>

  A text is a \<^typ>\<open>string\<close>: each \<^typ>\<open>char\<close> is one Python character with a code
  point below 256. UTF-8 writes a code point below 128 as one byte and a code point from
  128 to 255 as two bytes.
\<close>

definition utf8_encode :: "string \<Rightarrow> nat list" where
  "utf8_encode s =
     concat (map (\<lambda>c. if (of_char c :: nat) < 128 then [of_char c]
                         else [192 + of_char c div 64, 128 + of_char c mod 64]) s)"

definition int_from_bytes_big :: "nat list \<Rightarrow> nat" where
  "int_from_bytes_big bs = foldl (\<lambda>acc b. acc * 256 + b) 0 bs"

definition make_hash :: "string \<Rightarrow> nat \<Rightarrow> int \<Rightarrow> error + nat" where
  "make_hash substring hash_bits prime_index =
     (case get_prime prime_index of
        Inl e \<Rightarrow> Inl e
      | Inr p \<Rightarrow> Inr ((int_from_bytes_big (utf8_encode substring) * p) mod 2 ^ hash_bits))"

definition compare_hash :: "string \<Rightarrow> string \<Rightarrow> nat \<Rightarrow> int \<Rightarrow> error + bool" where
  "compare_hash substring target hash_bits prime_index =
     (case make_hash substring hash_bits prime_index of
        Inl e \<Rightarrow> Inl e
      | Inr a \<Rightarrow>
          (case make_hash target hash_bits prime_index of
             Inl e \<Rightarrow> Inl e
           | Inr b \<Rightarrow> Inr (a = b)))"

section \<open>preprocessing.py\<close>

text \<open>
  \<^verbatim>\<open>format(i, f'0{width}b')\<close> for \<open>i \<ge> 0\<close>: the binary digits of \<open>i\<close>, most significant
  first (\<open>0\<close> is the one digit \<open>0\<close>), padded on the left with zeros up to \<open>width\<close>
  characters and never cut.
\<close>

fun bin_digits :: "nat \<Rightarrow> string" where
  "bin_digits n =
     (if n < 2 then [if n = 0 then CHR ''0'' else CHR ''1'']
      else bin_digits (n div 2) @ [if n mod 2 = 0 then CHR ''0'' else CHR ''1''])"

declare bin_digits.simps [simp del]

definition format_bin :: "nat \<Rightarrow> nat \<Rightarrow> string" where
  "format_bin width i = replicate (width - length (bin_digits i)) CHR ''0'' @ bin_digits i"

text \<open>
  \<^verbatim>\<open>math.ceil(math.log2(n_substr))\<close>: \<open>math.log2\<close> raises ValueError (math domain error)
  for an argument that is not positive. The floating-point logarithm is taken as the
  exact one, so the result is the least \<open>k\<close> with \<open>n_substr \<le> 2 ^ k\<close>.
\<close>

fun ceil_log2 :: "nat \<Rightarrow> nat" where
  "ceil_log2 n = (if n \<le> 1 then 0 else Suc (ceil_log2 ((n + 1) div 2)))"

declare ceil_log2.simps [simp del]

definition compute_n_qubits :: "int \<Rightarrow> error + nat" where
  "compute_n_qubits n_substr =
     (if n_substr \<le> 0 then Inl ValueError else Inr (ceil_log2 (nat n_substr)))"

text \<open>
  The inner loop of \<open>classical_preprocessing\<close>:
  \<^verbatim>\<open>for search_value in search_values:
      if compare_hash(substring, search_value, hash_bits, prime_index):
          valid_states.append(format(i, f'0{n_qubits}b'))\<close>
  \<open>idx\<close> is the formatted index, \<open>valid_states\<close> the list built so far.
\<close>

fun mark_valid ::
  "string \<Rightarrow> string list \<Rightarrow> nat \<Rightarrow> int \<Rightarrow> string \<Rightarrow> string list \<Rightarrow> error + string list" where
  "mark_valid substring [] hash_bits prime_index idx valid_states = Inr valid_states"
| "mark_valid substring (search_value # rest) hash_bits prime_index idx valid_states =
     (case compare_hash substring search_value hash_bits prime_index of
        Inl e \<Rightarrow> Inl e
      | Inr b \<Rightarrow>
          mark_valid substring rest hash_bits prime_index idx
            (if b then valid_states @ [idx] else valid_states))"

text \<open>
  The outer loop, over the window positions \<open>i\<close>, threading the three lists
  \<open>(valid_states, substrings, targets)\<close>:
  \<^verbatim>\<open>substring = input_text[i:i + substring_length]
  hash_substring = format(make_hash(substring, hash_bits, prime_index), f'0{hash_bits}b')
  substrings.append(hash_substring)
  if substring in search_values:
      targets.append(hash_substring)\<close>
  followed by the inner loop.
\<close>

fun scan_windows ::
  "string \<Rightarrow> string list \<Rightarrow> nat \<Rightarrow> int \<Rightarrow> nat \<Rightarrow> nat \<Rightarrow> nat list \<Rightarrow>
   string list \<times> string list \<times> string list \<Rightarrow>
   error + string list \<times> string list \<times> string list" where
  "scan_windows input_text search_values hash_bits prime_index substring_length n_qubits [] acc =
     Inr acc"
| "scan_windows input_text search_values hash_bits prime_index substring_length n_qubits (i # rest)
     (valid_states, substrings, targets) =
     (case make_hash (take substring_length (drop i input_text)) hash_bits prime_index of
        Inl e \<Rightarrow> Inl e
      | Inr h \<Rightarrow>
          (case mark_valid (take substring_length (drop i input_text)) search_values hash_bits
                  prime_index (format_bin n_qubits i) valid_states of
             Inl e \<Rightarrow> Inl e
           | Inr valid_states' \<Rightarrow>
               scan_windows input_text search_values hash_bits prime_index substring_length
                 n_qubits rest
                 (valid_states',
                  substrings @ [format_bin hash_bits h],
                  if take substring_length (drop i input_text) \<in> set search_values
                  then targets @ [format_bin hash_bits h] else targets)))"

text \<open>
  \<open>classical_preprocessing\<close> returns
  \<open>(valid_states, n_substr, n_qubits, substrings, targets)\<close>. \<open>search_values[0]\<close> raises
  IndexError on an empty list.
\<close>

definition classical_preprocessing ::
  "string \<Rightarrow> string list \<Rightarrow> nat \<Rightarrow> int \<Rightarrow>
   error + string list \<times> int \<times> nat \<times> string list \<times> string list" where
  "classical_preprocessing input_text search_values hash_bits prime_index =
     (case search_values of
        [] \<Rightarrow> Inl IndexError
      | first # _ \<Rightarrow>
          (case compute_n_qubits (int (length input_text) - int (length first) + 1) of
             Inl e \<Rightarrow> Inl e
           | Inr n_qubits \<Rightarrow>
               (case scan_windows input_text search_values hash_bits prime_index (length first)
                       n_qubits
                       [0 ..< nat (int (length input_text) - int (length first) + 1)]
                       ([], [], []) of
                  Inl e \<Rightarrow> Inl e
                | Inr (valid_states, substrings, targets) \<Rightarrow>
                    Inr (valid_states, int (length input_text) - int (length first) + 1,
                         n_qubits, substrings, targets))))"

text \<open>
  The brute-force scan: the window positions \<open>i\<close> in \<open>[0, n_substr)\<close> whose digest equals
  the digest of some target.
\<close>

definition matching_positions :: "string \<Rightarrow> string list \<Rightarrow> nat \<Rightarrow> int \<Rightarrow> nat set" where
  "matching_positions input_text search_values hash_bits prime_index =
     set (filter
       (\<lambda>i. list_ex
          (\<lambda>t. make_hash (take (length (hd search_values)) (drop i input_text)) hash_bits
                  prime_index = make_hash t hash_bits prime_index)
          search_values)
       [0 ..< nat (int (length input_text) - int (length (hd search_values)) + 1)])"

section \<open>circuits.py\<close>

text \<open>
  A circuit is the list of its gates in the order they are applied. The gates used are the
  Hadamard gate, the NOT gate and the multi-controlled NOT gate (control qubits, target
  qubit). \<open>qc.h(range(n))\<close> and \<open>qc.x(range(n))\<close> add one gate per qubit, in
  increasing order. A full search circuit also ends in measurements (qubit, classical
  bit). A sub-circuit appended to a circuit on the qubits \<open>range(n_qubits)\<close> is taken as
  its gates, in order, on the same qubits.

  A qubit index outside the circuit raises CircuitError when the gate is added. The
  library's further checks of a gate's arguments (such as the number of controls of a
  multi-controlled gate) are not part of the model.
\<close>

datatype 'q gate = H 'q | X 'q | MCX "'q list" 'q

datatype 'q instr = Gate "'q gate" | Measure 'q nat

text \<open>Two pieces of a circuit built one after the other; the first error raised wins.\<close>

definition seq_gates :: "error + 'g list \<Rightarrow> error + 'g list \<Rightarrow> error + 'g list" where
  "seq_gates a b =
     (case a of
        Inl e \<Rightarrow> Inl e
      | Inr g \<Rightarrow> (case b of Inl e \<Rightarrow> Inl e | Inr h \<Rightarrow> Inr (g @ h)))"

text \<open>A \<open>for\<close> loop whose body adds gates to the circuit, or raises.\<close>

fun collect :: "('a \<Rightarrow> error + 'g list) \<Rightarrow> 'a list \<Rightarrow> error + 'g list" where
  "collect body [] = Inr []"
| "collect body (x # xs) = seq_gates (body x) (collect body xs)"

text \<open>
  \<^verbatim>\<open>for i, bit in enumerate(reversed(bitstring)):
      if bit == '0':
          oracle.x(i)\<close>
\<close>

definition zero_bit_flips :: "nat \<Rightarrow> string \<Rightarrow> error + nat gate list" where
  "zero_bit_flips n_qubits bitstring =
     collect (\<lambda>(i, bit).
         if bit = CHR ''0'' then (if i < n_qubits then Inr [X i] else Inl CircuitError)
         else Inr [])
       (enumerate 0 (rev bitstring))"

text \<open>
  \<^verbatim>\<open>c.h(n_qubits - 1)
  c.mcx(list(range(n_qubits - 1)), n_qubits - 1, mode='noancilla')
  c.h(n_qubits - 1)\<close>
  A circuit without qubits has no qubit \<open>-1\<close>.
\<close>

definition phase_flip :: "nat \<Rightarrow> error + nat gate list" where
  "phase_flip n_qubits =
     (if n_qubits = 0 then Inl CircuitError
      else Inr [H (n_qubits - 1), MCX [0 ..< n_qubits - 1] (n_qubits - 1), H (n_qubits - 1)])"

definition create_hashed_oracle :: "nat \<Rightarrow> string list \<Rightarrow> error + nat gate list" where
  "create_hashed_oracle n_qubits valid_states =
     collect (\<lambda>bitstring.
         seq_gates (zero_bit_flips n_qubits bitstring)
           (seq_gates (phase_flip n_qubits) (zero_bit_flips n_qubits bitstring)))
       valid_states"

definition diffuser :: "nat \<Rightarrow> error + nat gate list" where
  "diffuser n_qubits =
     seq_gates (Inr (map H [0 ..< n_qubits] @ map X [0 ..< n_qubits]))
       (seq_gates (phase_flip n_qubits)
          (Inr (map X [0 ..< n_qubits] @ map H [0 ..< n_qubits])))"

text \<open>
  \<open>a.compose(b)\<close> is the library's composition with its default \<open>front=False\<close>: the
  circuit of the gates of \<open>a\<close> followed by the gates of \<open>b\<close>.
\<close>

definition compose :: "'q gate list \<Rightarrow> 'q gate list \<Rightarrow> 'q gate list" where
  "compose a b = a @ b"

text \<open>
  \<^verbatim>\<open>oracle = create_hashed_oracle(n_qubits, valid_states)
  diff_op = diffuser(n_qubits)
  grover_op = diff_op.compose(oracle)\<close>
\<close>

definition grover_operator :: "nat \<Rightarrow> string list \<Rightarrow> error + nat gate list" where
  "grover_operator n_qubits valid_states =
     (case create_hashed_oracle n_qubits valid_states of
        Inl e \<Rightarrow> Inl e
      | Inr oracle \<Rightarrow>
          (case diffuser n_qubits of
             Inl e \<Rightarrow> Inl e
           | Inr diff_op \<Rightarrow> Inr (compose diff_op oracle)))"

text \<open>
  \<^verbatim>\<open>qc.h(range(n_qubits))
  for _ in range(iterations):
      qc.append(oracle, range(n_qubits))
      qc.append(diff_op, range(n_qubits))
  qc.measure(range(n_qubits), range(n_qubits))\<close>
  \<open>range(iterations)\<close> is empty for \<open>iterations \<le> 0\<close>.
\<close>

definition grover_basic_search_circuit ::
  "nat \<Rightarrow> string list \<Rightarrow> int \<Rightarrow> error + nat instr list" where
  "grover_basic_search_circuit n_qubits valid_states iterations =
     (case create_hashed_oracle n_qubits valid_states of
        Inl e \<Rightarrow> Inl e
      | Inr oracle \<Rightarrow>
          (case diffuser n_qubits of
             Inl e \<Rightarrow> Inl e
           | Inr diff_op \<Rightarrow>
               Inr (map (\<lambda>q. Gate (H q)) [0 ..< n_qubits]
                    @ map Gate (concat (replicate (nat iterations) (oracle @ diff_op)))
                    @ map (\<lambda>q. Measure q q) [0 ..< n_qubits])))"

subsection \<open>The associative-array loader\<close>

text \<open>
  The qubits of \<open>grover_search_circuit\<close>: the index register, the value register and
  the phase register. \<open>qreg[k]\<close> raises IndexError for \<open>k \<ge> len(qreg)\<close>.
\<close>

datatype qubit = Idx nat | Val nat | Phase nat

text \<open>
  \<^verbatim>\<open>for k, idx_bit in enumerate(index_bin):
      if idx_bit == '0':
          qc.x(qreg_idx[k])\<close>
\<close>

definition index_flips :: "nat \<Rightarrow> string \<Rightarrow> error + qubit gate list" where
  "index_flips num_idx index_bin =
     collect (\<lambda>(k, idx_bit).
         if idx_bit = CHR ''0'' then (if k < num_idx then Inr [X (Idx k)] else Inl IndexError)
         else Inr [])
       (enumerate 0 index_bin)"

text \<open>
  The body of \<open>if bit_char == '1'\<close>, the same in \<open>load_array\<close> and \<open>unload_array\<close>: the
  flips of the index qubits, \<open>qc.mcx(qreg_idx, qreg_val[val_qubit])\<close>, and the same flips
  again.
\<close>

definition load_bit :: "nat \<Rightarrow> nat \<Rightarrow> string \<Rightarrow> nat \<Rightarrow> error + qubit gate list" where
  "load_bit num_idx num_val index_bin val_qubit =
     seq_gates (index_flips num_idx index_bin)
       (seq_gates
          (if val_qubit < num_val then Inr [MCX (map Idx [0 ..< num_idx]) (Val val_qubit)]
           else Inl IndexError)
          (index_flips num_idx index_bin))"

definition load_value :: "nat \<Rightarrow> nat \<Rightarrow> nat \<Rightarrow> nat \<times> char \<Rightarrow> error + qubit gate list" where
  "load_value num_idx num_val i = (\<lambda>(val_qubit, bit_char).
     if bit_char = CHR ''1'' then load_bit num_idx num_val (format_bin num_idx i) val_qubit
     else Inr [])"

text \<open>
  \<^verbatim>\<open>for i in range(n):
      index_bin = format(i, f"0{num_idx}b")
      val_bin = array[i]
      for val_qubit, bit_char in enumerate(reversed(val_bin)):\<close>
  The functions return the gates they add to the circuit.
\<close>

definition load_array :: "nat \<Rightarrow> nat \<Rightarrow> string list \<Rightarrow> error + qubit gate list" where
  "load_array num_idx num_val array =
     collect (\<lambda>i. collect (load_value num_idx num_val i) (enumerate 0 (rev (array ! i))))
       [0 ..< length array]"

text \<open>
  \<^verbatim>\<open>for i in reversed(range(n)):
      index_bin = format(i, f"0{num_idx}b")
      val_bin = array[i]
      for val_qubit, bit_char in reversed(list(enumerate(reversed(val_bin)))):\<close>
\<close>

definition unload_array :: "nat \<Rightarrow> nat \<Rightarrow> string list \<Rightarrow> error + qubit gate list" where
  "unload_array num_idx num_val array =
     collect (\<lambda>i. collect (load_value num_idx num_val i) (rev (enumerate 0 (rev (array ! i)))))
       (rev [0 ..< length array])"

subsection \<open>The action of the gates on state vectors\<close>

text \<open>
  A state vector gives every assignment of bits to the qubits its amplitude. The NOT and
  the multi-controlled NOT gates permute the basis states, the Hadamard gate mixes the two
  values of its qubit. The controls of a multi-controlled gate do not contain its target.
\<close>

type_synonym 'q state = "('q \<Rightarrow> bool) \<Rightarrow> complex"

fun apply_gate :: "'q gate \<Rightarrow> 'q state \<Rightarrow> 'q state" where
  "apply_gate (X q) \<psi> = (\<lambda>s. \<psi> (s(q := \<not> s q)))"
| "apply_gate (MCX cs t) \<psi> = (\<lambda>s. \<psi> (if list_all s cs then s(t := \<not> s t) else s))"
| "apply_gate (H q) \<psi> =
     (\<lambda>s. (\<psi> (s(q := False)) + (if s q then - 1 else 1) * \<psi> (s(q := True)))
          / complex_of_real (sqrt 2))"

definition run :: "'q gate list \<Rightarrow> 'q state \<Rightarrow> 'q state" where
  "run gs \<psi> = fold apply_gate gs \<psi>"

text \<open>The value register is in the all-zero state: no amplitude on another value.\<close>

definition value_register_zero :: "qubit state \<Rightarrow> bool" where
  "value_register_zero \<psi> = (\<forall>s. (\<exists>v. s (Val v)) \<longrightarrow> \<psi> s = 0)"

text \<open>The gates that \<open>load_array\<close> and \<open>unload_array\<close> add for one set bit of a value.\<close>

definition load_block :: "nat \<Rightarrow> qubit gate list \<Rightarrow> bool" where
  "load_block num_idx b =
     (\<exists>ks t. b = map (\<lambda>k. X (Idx k)) ks @ [MCX (map Idx [0 ..< num_idx]) (Val t)]
                   @ map (\<lambda>k. X (Idx k)) ks)"

text \<open>
  The gates of the loader, described from the array: \<open>zero_bits\<close> are the positions of the
  character 0 in an index string, first character first; \<open>one_bits\<close> are the value qubits
  of the characters 1 of a value string, last character first (value qubit 0);
  \<open>loader_block num_idx i q\<close> is the block for array position \<open>i\<close> and value qubit \<open>q\<close>
  (a NOT gate on every index qubit whose bit of \<open>i\<close> is 0, in increasing order, the
  multi-controlled NOT from the whole index register onto value qubit \<open>q\<close>, and the same
  NOT gates again in the same order); \<open>set_bits\<close> lists the pairs \<open>(i, q)\<close> of the set bits
  of the array, by increasing position and, within a position, increasing value qubit.
\<close>

definition zero_bits :: "string \<Rightarrow> nat list" where
  "zero_bits index_bin = filter (\<lambda>k. index_bin ! k = CHR ''0'') [0 ..< length index_bin]"

definition one_bits :: "string \<Rightarrow> nat list" where
  "one_bits val_bin = filter (\<lambda>q. rev val_bin ! q = CHR ''1'') [0 ..< length val_bin]"

definition loader_block :: "nat \<Rightarrow> nat \<Rightarrow> nat \<Rightarrow> qubit gate list" where
  "loader_block num_idx i q =
     map (\<lambda>k. X (Idx k)) (zero_bits (format_bin num_idx i))
     @ [MCX (map Idx [0 ..< num_idx]) (Val q)]
     @ map (\<lambda>k. X (Idx k)) (zero_bits (format_bin num_idx i))"

definition set_bits :: "string list \<Rightarrow> (nat \<times> nat) list" where
  "set_bits array =
     concat (map (\<lambda>i. map (\<lambda>q. (i, q)) (one_bits (array ! i))) [0 ..< length array])"

section \<open>metrics.py\<close>

text \<open>
  A measurement histogram is a Python dict from outcome strings to counts: here the list
  of its items in iteration order, with distinct keys. Floating-point numbers are taken
  as real numbers.

  \<open>int(s, 2)\<close> on an outcome: the keys of a histogram are strings of the characters 0 and
  1, read with the most significant bit first. The empty string raises ValueError, and so
  does a string with another character in the model (the signs, white space, prefixes and
  underscores that \<open>int\<close> would accept do not occur in outcomes and are not modelled).
\<close>

type_synonym counts = "(string \<times> int) list"

definition is_bitstring :: "string \<Rightarrow> bool" where
  "is_bitstring s = (s \<noteq> [] \<and> list_all (\<lambda>c. c = CHR ''0'' \<or> c = CHR ''1'') s)"

definition bits_value :: "string \<Rightarrow> int" where
  "bits_value s = foldl (\<lambda>acc c. 2 * acc + (if c = CHR ''1'' then 1 else 0)) 0 s"

definition int_base2 :: "string \<Rightarrow> error + int" where
  "int_base2 s = (if is_bitstring s then Inr (bits_value s) else Inl ValueError)"

text \<open>
  \<^verbatim>\<open>max(counts, key=counts.get)\<close>: the keys are visited in iteration order and the
  first key with the greatest count is kept (a later key replaces the kept one only when
  its count is strictly greater). \<open>max\<close> of an empty dict raises ValueError.
\<close>

fun max_from :: "string \<times> int \<Rightarrow> counts \<Rightarrow> string" where
  "max_from best [] = fst best"
| "max_from best (item # rest) = max_from (if snd best < snd item then item else best) rest"

definition most_common_key :: "counts \<Rightarrow> error + string" where
  "most_common_key counts =
     (case counts of [] \<Rightarrow> Inl ValueError | item # rest \<Rightarrow> Inr (max_from item rest))"

text \<open>
  \<^verbatim>\<open>most_common = max(counts, key=counts.get)
  r = int(most_common, 2)
  theta_est = (r / (2 ** p_count)) * 2 * math.pi
  M_est = n_substr * (1 - (math.sin(theta_est / 2)) ** 2)
  return M_est, theta_est, r\<close>
  \<open>p_count\<close> is a number of qubits, a natural number.
\<close>

definition estimate_marked_state_count ::
  "counts \<Rightarrow> nat \<Rightarrow> int \<Rightarrow> error + real \<times> real \<times> int" where
  "estimate_marked_state_count counts p_count n_substr =
     (case most_common_key counts of
        Inl e \<Rightarrow> Inl e
      | Inr most_common \<Rightarrow>
          (case int_base2 most_common of
             Inl e \<Rightarrow> Inl e
           | Inr r \<Rightarrow>
               Inr (real_of_int n_substr
                      * (1 - (sin ((real_of_int r / 2 ^ p_count) * 2 * pi / 2)) ^ 2),
                    (real_of_int r / 2 ^ p_count) * 2 * pi,
                    r)))"

text \<open>
  \<^verbatim>\<open>abs_error = abs(M_est - true_M)
  rel_error = abs_error / true_M if true_M != 0 else 0\<close>
\<close>

definition compute_errors :: "real \<Rightarrow> int \<Rightarrow> real \<times> real" where
  "compute_errors M_est true_M =
     (\<bar>M_est - real_of_int true_M\<bar>,
      if true_M \<noteq> 0 then \<bar>M_est - real_of_int true_M\<bar> / real_of_int true_M else 0)"

text \<open>The integer value \<open>int(k, 2)\<close> of every key, in iteration order, with its count.\<close>

fun outcome_values :: "counts \<Rightarrow> error + (int \<times> int) list" where
  "outcome_values [] = Inr []"
| "outcome_values ((k, v) # rest) =
     (case int_base2 k of
        Inl e \<Rightarrow> Inl e
      | Inr r \<Rightarrow>
          (case outcome_values rest of Inl e \<Rightarrow> Inl e | Inr rs \<Rightarrow> Inr ((r, v) # rs)))"

text \<open>
  \<^verbatim>\<open>total_shots = sum(counts.values())
  mean_r = sum(int(k, 2) * v for k, v in counts.items()) / total_shots
  var_r = sum(((int(k, 2) - mean_r) ** 2) * v for k, v in counts.items()) / total_shots\<close>
  The first sum is evaluated before the division, so a key that is not a number raises
  ValueError before a zero total raises ZeroDivisionError.
\<close>

definition compute_statistics :: "counts \<Rightarrow> error + real \<times> real" where
  "compute_statistics counts =
     (case outcome_values counts of
        Inl e \<Rightarrow> Inl e
      | Inr rvs \<Rightarrow>
          if sum_list (map snd counts) = 0 then Inl ZeroDivisionError
          else
            Inr (real_of_int (\<Sum>(r, v)\<leftarrow>rvs. r * v) / real_of_int (sum_list (map snd counts)),
                 (\<Sum>(r, v)\<leftarrow>rvs.
                     (real_of_int r
                        - real_of_int (\<Sum>(r, v)\<leftarrow>rvs. r * v)
                            / real_of_int (sum_list (map snd counts))) ^ 2
                     * real_of_int v)
                 / real_of_int (sum_list (map snd counts))))"

section \<open>utils.py\<close>

text \<open>
  \<open>s[:stop]\<close> for a string: the first \<open>stop\<close> characters, or all but the last \<open>-stop\<close>
  for a negative \<open>stop\<close>.
\<close>

definition py_prefix :: "'a list \<Rightarrow> int \<Rightarrow> 'a list" where
  "py_prefix s stop = (if 0 \<le> stop then take (nat stop) s else take (length s - nat (- stop)) s)"

text \<open>\<open>list(range(0, stop, step))\<close> for a positive \<open>step\<close>.\<close>

definition py_range_step :: "int \<Rightarrow> nat \<Rightarrow> nat list" where
  "py_range_step stop step =
     (if 0 < stop then map (\<lambda>j. j * step) [0 ..< nat ((stop - 1) div int step + 1)] else [])"

text \<open>
  \<open>lst[start:stop] = new\<close> for \<open>0 \<le> start \<le> stop\<close>: both bounds are cut to the length of
  the list, and the items between them are replaced by the new ones.
\<close>

definition slice_assign :: "'a list \<Rightarrow> nat \<Rightarrow> nat \<Rightarrow> 'a list \<Rightarrow> 'a list" where
  "slice_assign lst start stop new = take start lst @ new @ drop stop lst"

text \<open>
  \<^verbatim>\<open>for i, search_value in enumerate(search_values):
      base_text[selected_positions[i]:selected_positions[i] + L] = list(search_value)\<close>
  \<open>selected_positions\<close> has one position per search value.
\<close>

fun embed_values :: "nat \<Rightarrow> string \<Rightarrow> (nat \<times> string) list \<Rightarrow> string" where
  "embed_values L base_text [] = base_text"
| "embed_values L base_text ((pos, search_value) # rest) =
     embed_values L (slice_assign base_text pos (pos + L) search_value) rest"

text \<open>
  \<^verbatim>\<open>num_correct = len(search_values)
  L = len(search_values[0])
  filler = "xxx"
  base_text = (filler * ((input_length // L) + 1))[:input_length]
  valid_positions = list(range(0, input_length - L + 1, L))
  if num_correct > len(valid_positions):
      raise ValueError("num_correct is too high for the given input_length.")
  selected_positions = random.sample(valid_positions, num_correct)\<close>

  \<open>random.sample(population, k)\<close> returns \<open>k\<close> items of the population at distinct
  places of it, chosen at random and in random order. The choice is the parameter
  \<open>sample\<close> of the model. \<open>search_values[0]\<close> raises IndexError on an empty list and
  \<open>input_length // L\<close> raises ZeroDivisionError for an empty first value. The product of
  a string with a number that is not positive is the empty string.
\<close>

definition admissible_sample :: "(nat list \<Rightarrow> nat \<Rightarrow> nat list) \<Rightarrow> bool" where
  "admissible_sample sample =
     (\<forall>population k. k \<le> length population \<longrightarrow> distinct population \<longrightarrow>
        length (sample population k) = k \<and> distinct (sample population k)
        \<and> set (sample population k) \<subseteq> set population)"

definition generate_input_text_fixed ::
  "(nat list \<Rightarrow> nat \<Rightarrow> nat list) \<Rightarrow> int \<Rightarrow> string list \<Rightarrow> error + string" where
  "generate_input_text_fixed sample input_length search_values =
     (case search_values of
        [] \<Rightarrow> Inl IndexError
      | first # _ \<Rightarrow>
          if length first = 0 then Inl ZeroDivisionError
          else if length (py_range_step (input_length - int (length first) + 1) (length first))
                  < length search_values
          then Inl ValueError
          else
            Inr (embed_values (length first)
                   (py_prefix
                      (concat (replicate (nat (input_length div int (length first) + 1)) ''xxx''))
                      input_length)
                   (zip (sample
                           (py_range_step (input_length - int (length first) + 1) (length first))
                           (length search_values))
                        search_values)))"

section \<open>adaptive\_search.py\<close>

text \<open>
  \<open>round\<close> rounds a float to the nearest integer, and a half to the even neighbour.
\<close>

definition py_round :: "real \<Rightarrow> int" where
  "py_round x =
     (if x - of_int \<lfloor>x\<rfloor> < 1 / 2 then \<lfloor>x\<rfloor>
      else if 1 / 2 < x - of_int \<lfloor>x\<rfloor> then \<lfloor>x\<rfloor> + 1
      else if even \<lfloor>x\<rfloor> then \<lfloor>x\<rfloor> else \<lfloor>x\<rfloor> + 1)"

text \<open>
  \<^verbatim>\<open>optimal_iterations = 0 if M_est < 1e-6 else int(round((math.pi / 4) * math.sqrt(n_substr / M_est)))\<close>
  A division by the float zero raises ZeroDivisionError, and \<open>math.sqrt\<close> of a negative
  number raises ValueError.
\<close>

definition derive_iterations :: "int \<Rightarrow> real \<Rightarrow> error + int" where
  "derive_iterations n_substr M_est =
     (if M_est < 1 / 10 ^ 6 then Inr 0
      else if M_est = 0 then Inl ZeroDivisionError
      else if real_of_int n_substr / M_est < 0 then Inl ValueError
      else Inr (py_round ((pi / 4) * sqrt (real_of_int n_substr / M_est))))"

text \<open>\<^verbatim>\<open>valid_indices = {int(bs, 2) for bs in valid_states}\<close>\<close>

fun index_values :: "string list \<Rightarrow> error + int list" where
  "index_values [] = Inr []"
| "index_values (bs # rest) =
     (case int_base2 bs of
        Inl e \<Rightarrow> Inl e
      | Inr r \<Rightarrow> (case index_values rest of Inl e \<Rightarrow> Inl e | Inr rs \<Rightarrow> Inr (r # rs)))"

text \<open>
  \<^verbatim>\<open>valid_shots = sum(
      count for outcome, count in counts_search.items()
      if int(outcome[::-1], 2) in valid_indices)\<close>
\<close>

fun valid_shots_of :: "int set \<Rightarrow> counts \<Rightarrow> error + int" where
  "valid_shots_of valid_indices [] = Inr 0"
| "valid_shots_of valid_indices ((outcome, count) # rest) =
     (case int_base2 (rev outcome) of
        Inl e \<Rightarrow> Inl e
      | Inr r \<Rightarrow>
          (case valid_shots_of valid_indices rest of
             Inl e \<Rightarrow> Inl e
           | Inr others \<Rightarrow> Inr ((if r \<in> valid_indices then count else 0) + others)))"

text \<open>
  The validation stage:
  \<^verbatim>\<open>total_shots = sum(counts_search.values())
  valid_fraction = valid_shots / total_shots if total_shots > 0 else 1.0\<close>
\<close>

definition validate :: "string list \<Rightarrow> counts \<Rightarrow> error + real" where
  "validate valid_states counts_search =
     (case index_values valid_states of
        Inl e \<Rightarrow> Inl e
      | Inr valid_indices \<Rightarrow>
          (case valid_shots_of (set valid_indices) counts_search of
             Inl e \<Rightarrow> Inl e
           | Inr valid_shots \<Rightarrow>
               Inr (if 0 < sum_list (map snd counts_search)
                    then real_of_int valid_shots / real_of_int (sum_list (map snd counts_search))
                    else 1)))"

text \<open>
  \<^verbatim>\<open>expected_theta = 2 * math.asin(math.sqrt(true_M / n_substr)) if true_M > 0 else None\<close>
  \<open>math.asin\<close> raises ValueError outside \<open>[-1, 1]\<close>.
\<close>

definition expected_theta_of :: "int \<Rightarrow> int \<Rightarrow> error + real option" where
  "expected_theta_of true_M n_substr =
     (if 0 < true_M then
        (if n_substr = 0 then Inl ZeroDivisionError
         else if real_of_int true_M / real_of_int n_substr < 0 then Inl ValueError
         else if 1 < sqrt (real_of_int true_M / real_of_int n_substr) then Inl ValueError
         else Inr (Some (2 * arcsin (sqrt (real_of_int true_M / real_of_int n_substr)))))
      else Inr None)"

text \<open>
  The result record of \<open>run_full_search\<close>, without the circuit depths, gate counts and run
  times that the two executions report: they are copied into the record as they are.
\<close>

record search_results =
  res_counts_count :: counts
  res_M_est :: real
  res_theta_est :: real
  res_r_measured :: int
  res_optimal_iterations :: int
  res_counts_search :: counts
  res_valid_fraction :: real
  res_n_substr :: int
  res_n_qubits :: nat
  res_p_count :: nat
  res_filtered_states :: "string list"
  res_expected_theta :: "real option"
  res_abs_error :: real
  res_rel_error :: real
  res_mean_r :: real
  res_var_r :: real

text \<open>
  \<open>run_full_search\<close>. The two circuit executions are parameters: \<open>counting\<close> gives the
  histogram that \<open>run_counting(n_qubits, p_count, valid_states, ...)\<close> returns and
  \<open>search\<close> the one that
  \<open>run_grover_search(n_qubits, valid_states, optimal_iterations, ..., substrings, targets)\<close>
  returns.
\<close>

definition run_full_search ::
  "(nat \<Rightarrow> nat \<Rightarrow> string list \<Rightarrow> counts) \<Rightarrow>
   (nat \<Rightarrow> string list \<Rightarrow> int \<Rightarrow> string list \<Rightarrow> string list \<Rightarrow> counts) \<Rightarrow>
   string \<Rightarrow> string list \<Rightarrow> nat \<Rightarrow> int \<Rightarrow> nat \<Rightarrow> error + search_results" where
  "run_full_search counting search input_text search_value hash_bits prime_index p_count =
     (case classical_preprocessing input_text search_value hash_bits prime_index of
        Inl e \<Rightarrow> Inl e
      | Inr (valid_states, n_substr, n_qubits, substrings, targets) \<Rightarrow>
     (case estimate_marked_state_count (counting n_qubits p_count valid_states) p_count n_substr of
        Inl e \<Rightarrow> Inl e
      | Inr (M_est, theta_est, r_measured) \<Rightarrow>
     (case derive_iterations n_substr M_est of
        Inl e \<Rightarrow> Inl e
      | Inr optimal_iterations \<Rightarrow>
     (case validate valid_states
             (search n_qubits valid_states optimal_iterations substrings targets) of
        Inl e \<Rightarrow> Inl e
      | Inr valid_fraction \<Rightarrow>
     (case expected_theta_of (int (length valid_states)) n_substr of
        Inl e \<Rightarrow> Inl e
      | Inr expected_theta \<Rightarrow>
     (case compute_statistics (counting n_qubits p_count valid_states) of
        Inl e \<Rightarrow> Inl e
      | Inr (mean_r, var_r) \<Rightarrow>
          Inr \<lparr>res_counts_count = counting n_qubits p_count valid_states,
               res_M_est = M_est,
               res_theta_est = theta_est,
               res_r_measured = r_measured,
               res_optimal_iterations = optimal_iterations,
               res_counts_search =
                 search n_qubits valid_states optimal_iterations substrings targets,
               res_valid_fraction = valid_fraction,
               res_n_substr = n_substr,
               res_n_qubits = n_qubits,
               res_p_count = p_count,
               res_filtered_states = valid_states,
               res_expected_theta = expected_theta,
               res_abs_error = fst (compute_errors M_est (int (length valid_states))),
               res_rel_error = snd (compute_errors M_est (int (length valid_states))),
               res_mean_r = mean_r,
               res_var_r = var_r\<rparr>))))))"

section \<open>Properties of hashing.py and preprocessing.py\<close>

lemmas hashing_defs =
  make_hash_def compare_hash_def get_prime_def py_subscript_def primes_def utf8_encode_def
  int_from_bytes_big_def

lemmas preprocessing_defs =
  classical_preprocessing_def compute_n_qubits_def ceil_log2.simps format_bin_def
  bin_digits.simps upt_rec

lemma get_prime_ok_iff: "(\<exists>p. get_prime i = Inr p) \<longleftrightarrow> - 8 \<le> i \<and> i \<le> 9"
  by (auto simp add: get_prime_def py_subscript_def primes_def)

lemma get_prime_error: "get_prime i = Inl e \<Longrightarrow> e = IndexError"
  by (auto simp add: get_prime_def py_subscript_def split: if_splits)

lemma make_hash_ok: "get_prime pidx = Inr p \<Longrightarrow> \<exists>h. make_hash s hb pidx = Inr h"
  by (simp add: make_hash_def)

lemma compare_hash_ok: "get_prime pidx = Inr p \<Longrightarrow> \<exists>b. compare_hash s t hb pidx = Inr b"
  by (simp add: compare_hash_def make_hash_def)

lemma mark_valid_ok:
  "get_prime pidx = Inr p \<Longrightarrow> \<exists>vs'. mark_valid s svs hb pidx idx vs = Inr vs'"
proof (induction svs arbitrary: vs)
  case Nil
  then show ?case by simp
next
  case (Cons t svs)
  from compare_hash_ok [OF Cons.prems] obtain b where "compare_hash s t hb pidx = Inr b"
    by blast
  then show ?case using Cons.IH [OF Cons.prems] by simp
qed

lemma scan_windows_ok:
  "get_prime pidx = Inr p \<Longrightarrow> \<exists>r. scan_windows text svs hb pidx L nq ixs acc = Inr r"
proof (induction ixs arbitrary: acc)
  case Nil
  then show ?case by (cases acc) simp
next
  case (Cons i ixs)
  obtain vs subs tg where acc: "acc = (vs, subs, tg)" by (cases acc) auto
  from make_hash_ok [OF Cons.prems] obtain h
    where h: "make_hash (take L (drop i text)) hb pidx = Inr h" by blast
  from mark_valid_ok [OF Cons.prems] obtain vs'
    where m: "mark_valid (take L (drop i text)) svs hb pidx (format_bin nq i) vs = Inr vs'"
    by blast
  show ?case using Cons.IH [OF Cons.prems] by (simp add: acc h m)
qed

lemma scan_windows_fail:
  assumes "get_prime pidx = Inl e"
  shows "scan_windows text svs hb pidx L nq (i # rest) acc = Inl e"
  using assms by (cases acc) (simp add: make_hash_def)

text \<open>
  C6. \<open>get_prime\<close> returns the \<open>index\<close>-th entry of the nine-entry table for
  \<open>1 \<le> index \<le> 9\<close>, and fails with IndexError for \<open>index > 9\<close> and for \<open>index < -8\<close>.
  For \<open>-8 \<le> index \<le> 0\<close> the subscript \<open>index - 1\<close> is negative and counts from the end
  of the table, so a prime is returned: entry \<open>index + 9\<close>, counted from 1.
\<close>

theorem get_prime_table:
  "get_prime i =
     (if 1 \<le> i \<and> i \<le> 9 then Inr (primes ! nat (i - 1))
      else if - 8 \<le> i \<and> i \<le> 0 then Inr (primes ! nat (i + 8))
      else Inl IndexError)"
  by (auto simp add: get_prime_def py_subscript_def primes_def add.commute)

text \<open>Index 0 is outside \<open>1 .. 9\<close> and yields the last prime of the table; no error.\<close>

theorem get_prime_zero_returns_last:
  "get_prime 0 = Inr 47 \<and> get_prime 0 \<noteq> Inl IndexError"
  by (simp add: get_prime_def py_subscript_def primes_def)

text \<open>
  C2. The text \<open>abcb\<close> with the targets \<open>ab\<close> and \<open>cb\<close> (8 hash bits, prime 17): the
  digest depends on the last byte only, so both targets have the digest of the windows at
  positions 0 and 2. Two window positions match, and \<open>valid_states\<close> has four entries:
  each matching position is appended once per matching target.
\<close>

theorem classical_preprocessing_duplicate_entries:
  "classical_preprocessing ''abcb'' [''ab'', ''cb''] 8 1 =
     Inr ([''00'', ''00'', ''10'', ''10''], 3, 2,
          [''10000010'', ''10010011'', ''10000010''], [''10000010'', ''10000010''])
   \<and> matching_positions ''abcb'' [''ab'', ''cb''] 8 1 = {0, 2}
   \<and> card (matching_positions ''abcb'' [''ab'', ''cb''] 8 1) = 2"
proof -
  have run: "classical_preprocessing ''abcb'' [''ab'', ''cb''] 8 1 =
     Inr ([''00'', ''00'', ''10'', ''10''], 3, 2,
          [''10000010'', ''10010011'', ''10000010''], [''10000010'', ''10000010''])"
    by (simp add: preprocessing_defs hashing_defs)
  have pos: "matching_positions ''abcb'' [''ab'', ''cb''] 8 1 = {0, 2}"
    by (simp add: matching_positions_def hashing_defs upt_rec) auto
  show ?thesis using run pos by simp
qed

text \<open>
  C5. \<open>classical_preprocessing\<close> makes no check of the targets' lengths. It fails exactly
  when the target list is empty (IndexError), when the first target is longer than the
  text (ValueError from the logarithm of a number of windows that is not positive), or
  when the prime index is outside \<open>-8 .. 9\<close> (IndexError, at the first digest). In every
  other case it returns, with the window length taken from the first target, whatever the
  lengths of the other targets are.
\<close>

theorem classical_preprocessing_failure_iff:
  "classical_preprocessing input_text search_values hash_bits prime_index = Inl e \<longleftrightarrow>
     (search_values = [] \<and> e = IndexError)
     \<or> (search_values \<noteq> [] \<and> length input_text < length (hd search_values)
          \<and> e = ValueError)
     \<or> (search_values \<noteq> [] \<and> length (hd search_values) \<le> length input_text
          \<and> (prime_index < - 8 \<or> 9 < prime_index) \<and> e = IndexError)"
proof (cases search_values)
  case Nil
  then show ?thesis by (auto simp add: classical_preprocessing_def)
next
  case (Cons first others)
  show ?thesis
  proof (cases "length input_text < length first")
    case True
    then show ?thesis
      by (auto simp add: Cons classical_preprocessing_def compute_n_qubits_def)
  next
    case False
    define n where "n = nat (int (length input_text) - int (length first) + 1)"
    from False have npos: "0 < n" by (simp add: n_def)
    then obtain rest where upt: "[0 ..< n] = 0 # rest" by (cases n) (auto simp add: upt_rec)
    show ?thesis
    proof (cases "get_prime prime_index")
      case (Inl e')
      then have e': "e' = IndexError" by (rule get_prime_error)
      from Inl get_prime_ok_iff [of prime_index]
      have range: "prime_index < - 8 \<or> 9 < prime_index" by auto
      from Inl have "scan_windows input_text search_values hash_bits prime_index (length first)
          (ceil_log2 n) [0 ..< n] ([], [], []) = Inl e'"
        unfolding upt by (rule scan_windows_fail)
      with False range e' show ?thesis
        by (auto simp add: Cons classical_preprocessing_def compute_n_qubits_def n_def)
    next
      case (Inr p)
      from Inr get_prime_ok_iff [of prime_index]
      have range: "- 8 \<le> prime_index \<and> prime_index \<le> 9" by auto
      from scan_windows_ok [OF Inr] obtain r
        where "scan_windows input_text search_values hash_bits prime_index (length first)
          (ceil_log2 n) [0 ..< n] ([], [], []) = Inr r" by blast
      with False range show ?thesis
        by (cases r) (auto simp add: Cons classical_preprocessing_def compute_n_qubits_def n_def)
    qed
  qed
qed

text \<open>
  The targets \<open>ab\<close> and \<open>b\<close> differ in length; the call returns a result.
\<close>

theorem classical_preprocessing_mixed_lengths_returns:
  "classical_preprocessing ''abcb'' [''ab'', ''b''] 8 1 =
     Inr ([''00'', ''00'', ''10'', ''10''], 3, 2,
          [''10000010'', ''10010011'', ''10000010''], [''10000010''])"
  by (simp add: preprocessing_defs hashing_defs)

theorem classical_preprocessing_failure_iff_witness:
  "classical_preprocessing ''abcb'' [''ab'', ''b''] 8 1 \<noteq> Inl IndexError
   \<and> classical_preprocessing ''abcb'' [''ab'', ''b''] 8 1 \<noteq> Inl ValueError
   \<and> classical_preprocessing ''ab'' [''abc'', ''b''] 8 1 = Inl ValueError
   \<and> classical_preprocessing ''abcb'' [''ab'', ''b''] 8 10 = Inl IndexError"
  using classical_preprocessing_failure_iff [of "''abcb''" "[''ab'', ''b'']" 8 1 IndexError]
    classical_preprocessing_failure_iff [of "''abcb''" "[''ab'', ''b'']" 8 1 ValueError]
    classical_preprocessing_failure_iff [of "''ab''" "[''abc'', ''b'']" 8 1 ValueError]
    classical_preprocessing_failure_iff [of "''abcb''" "[''ab'', ''b'']" 8 10 IndexError]
  by simp

section \<open>Properties of circuits.py\<close>

lemmas circuit_defs =
  seq_gates_def zero_bit_flips_def phase_flip_def create_hashed_oracle_def diffuser_def
  compose_def grover_operator_def grover_basic_search_circuit_def upt_rec enumerate_eq_zip

lemmas loader_defs =
  seq_gates_def index_flips_def load_bit_def load_value_def load_array_def unload_array_def
  format_bin_def bin_digits.simps upt_rec enumerate_eq_zip

text \<open>
  C1. With two qubits and the valid state \<open>11\<close>, \<open>grover_operator\<close> is the eleven gates
  of the diffuser followed by the three gates of the oracle: \<open>diff_op.compose(oracle)\<close>
  puts the diffuser first. One iteration of \<open>grover_basic_search_circuit\<close> is the oracle
  followed by the diffuser. The two gate sequences differ.
\<close>

theorem grover_operator_diffuser_first: "grover_operator 2 [''11''] =
     Inr ([H 0, H 1, X 0, X 1, H 1, MCX [0] 1, H 1, X 0, X 1, H 0, H 1]
          @ [H 1, MCX [0] 1, H 1])
   \<and> grover_basic_search_circuit 2 [''11''] 1 =
     Inr (map Gate [H 0, H 1]
          @ map Gate ([H 1, MCX [0] 1, H 1]
                      @ [H 0, H 1, X 0, X 1, H 1, MCX [0] 1, H 1, X 0, X 1, H 0, H 1])
          @ [Measure 0 0, Measure 1 1])
   \<and> [H 0, H 1, X 0, X 1, H 1, MCX [0] 1, H 1, X 0, X 1, H 0, H 1] @ [H 1, MCX [0] 1, H 1]
       \<noteq> [H 1, MCX [0] 1, H (1::nat)]
          @ [H 0, H 1, X 0, X 1, H 1, MCX [0] 1, H 1, X 0, X 1, H 0, H 1]"
  by (simp add: circuit_defs)

text \<open>
  C3, as stated. With a two-qubit index register and the one-entry array \<open>[1]\<close>,
  \<open>unload_array\<close> adds the same five gates as \<open>load_array\<close>, in the same order; the
  reverse of the sequence starts with the flip of index qubit 1. And not every array and
  register size gives a circuit: a value longer than the value register, and an array
  with more than \<open>2 ^ num_idx\<close> entries, raise IndexError in both functions.
\<close>

theorem unload_not_reverse_of_load:
  "load_array 2 1 [''1''] =
     Inr [X (Idx 0), X (Idx 1), MCX [Idx 0, Idx 1] (Val 0), X (Idx 0), X (Idx 1)]
   \<and> unload_array 2 1 [''1''] =
     Inr [X (Idx 0), X (Idx 1), MCX [Idx 0, Idx 1] (Val 0), X (Idx 0), X (Idx 1)]
   \<and> [X (Idx 0), X (Idx 1), MCX [Idx 0, Idx 1] (Val 0), X (Idx 0), X (Idx 1)]
       \<noteq> rev [X (Idx 0), X (Idx 1), MCX [Idx 0, Idx 1] (Val 0), X (Idx 0), X (Idx 1)]
   \<and> load_array 2 1 [''11''] = Inl IndexError
   \<and> unload_array 2 1 [''11''] = Inl IndexError
   \<and> load_array 1 1 [''0'', ''0'', ''1''] = Inl IndexError
   \<and> unload_array 1 1 [''0'', ''0'', ''1''] = Inl IndexError"
  by (simp add: loader_defs)

lemma seq_gates_Inr_iff:
  "seq_gates a b = Inr g \<longleftrightarrow> (\<exists>g1 g2. a = Inr g1 \<and> b = Inr g2 \<and> g = g1 @ g2)"
  by (auto simp add: seq_gates_def split: sum.splits)

lemma collect_Inr_iff:
  "collect body xs = Inr g \<longleftrightarrow>
     (\<forall>x \<in> set xs. \<exists>b. body x = Inr b) \<and> g = concat (map (\<lambda>x. projr (body x)) xs)"
proof (induction xs arbitrary: g)
  case Nil
  show ?case by auto
next
  case (Cons x xs)
  show ?case by (auto simp add: seq_gates_Inr_iff Cons.IH)
qed

lemma run_append: "run (a @ b) \<psi> = run b (run a \<psi>)"
  by (simp add: run_def)

lemma run_X_X: "apply_gate (X q) (apply_gate (X q) \<psi>) = \<psi>"
  by (simp add: fun_eq_iff)

lemma X_commute: "apply_gate (X a) (apply_gate (X b) \<psi>) = apply_gate (X b) (apply_gate (X a) \<psi>)"
  by (cases "a = b") (auto simp add: fun_eq_iff fun_upd_twist)

lemma run_flips_commute:
  "run (map X ks) (apply_gate (X q) \<psi>) = apply_gate (X q) (run (map X ks) \<psi>)"
proof (induction ks arbitrary: \<psi>)
  case Nil
  show ?case by (simp add: run_def)
next
  case (Cons k ks)
  have "run (map X (k # ks)) (apply_gate (X q) \<psi>) = run (map X ks) (apply_gate (X k) (apply_gate (X q) \<psi>))"
    by (simp add: run_def)
  also have "\<dots> = run (map X ks) (apply_gate (X q) (apply_gate (X k) \<psi>))"
    by (simp only: X_commute)
  also have "\<dots> = apply_gate (X q) (run (map X ks) (apply_gate (X k) \<psi>))"
    by (rule Cons.IH)
  finally show ?case by (simp add: run_def)
qed

lemma run_flips_twice: "run (map X ks) (run (map X ks) \<psi>) = \<psi>"
proof (induction ks arbitrary: \<psi>)
  case Nil
  show ?case by (simp add: run_def)
next
  case (Cons k ks)
  have "run (map X (k # ks)) (run (map X (k # ks)) \<psi>)
      = run (map X ks) (apply_gate (X k) (run (map X ks) (apply_gate (X k) \<psi>)))"
    by (simp add: run_def)
  also have "\<dots> = run (map X ks) (run (map X ks) (apply_gate (X k) (apply_gate (X k) \<psi>)))"
    by (simp only: run_flips_commute)
  also have "\<dots> = \<psi>" by (simp only: run_X_X Cons.IH)
  finally show ?case .
qed

lemma MCX_twice:
  assumes "t \<notin> set cs"
  shows "apply_gate (MCX cs t) (apply_gate (MCX cs t) \<psi>) = \<psi>"
proof -
  have "list_all (s(t := b)) cs = list_all s cs" for s :: "'a \<Rightarrow> bool" and b
    using assms by (induction cs) auto
  then show ?thesis by (simp add: fun_eq_iff)
qed


lemma run_Nil: "run [] \<psi> = \<psi>"
  by (simp add: run_def)

lemma run_single: "run [g] \<psi> = apply_gate g \<psi>"
  by (simp add: run_def)

lemma load_block_self_inverse:
  assumes "load_block num_idx b"
  shows "run b (run b \<psi>) = \<psi>"
proof -
  from assms obtain ks t where
    b: "b = map (\<lambda>k. X (Idx k)) ks @ [MCX (map Idx [0 ..< num_idx]) (Val t)]
            @ map (\<lambda>k. X (Idx k)) ks"
    unfolding load_block_def by blast
  let ?xs = "map X (map Idx ks)"
  let ?m = "MCX (map Idx [0 ..< num_idx]) (Val t)"
  have b': "b = ?xs @ [?m] @ ?xs" by (simp add: b comp_def)
  have target: "Val t \<notin> set (map Idx [0 ..< num_idx])" by auto
  have "run b (run b \<psi>)
      = run ?xs (apply_gate ?m (run ?xs (run ?xs (apply_gate ?m (run ?xs \<psi>)))))"
    by (simp only: b' run_append run_single)
  also have "\<dots> = run ?xs (apply_gate ?m (apply_gate ?m (run ?xs \<psi>)))"
    by (simp only: run_flips_twice)
  also have "\<dots> = run ?xs (run ?xs \<psi>)"
    by (simp only: MCX_twice [OF target])
  also have "\<dots> = \<psi>" by (rule run_flips_twice)
  finally show ?thesis .
qed

lemma run_concat_rev:
  assumes "\<forall>b \<in> set bs. \<forall>\<psi>. run b (run b \<psi>) = \<psi>"
  shows "run (concat (rev bs)) (run (concat bs) \<psi>) = \<psi>"
  using assms
proof (induction bs arbitrary: \<psi>)
  case Nil
  show ?case by (simp add: run_Nil)
next
  case (Cons b bs)
  have "run (concat (rev (b # bs))) (run (concat (b # bs)) \<psi>)
      = run b (run (concat (rev bs)) (run (concat bs) (run b \<psi>)))"
    by (simp add: run_append)
  also have "\<dots> = run b (run b \<psi>)" using Cons by simp
  also have "\<dots> = \<psi>" using Cons.prems by simp
  finally show ?case .
qed

lemma concat_concat_map: "concat (concat (map f xs)) = concat (map (\<lambda>x. concat (f x)) xs)"
  by (induction xs) simp_all

lemma rev_concat_map: "rev (concat (map f xs)) = concat (map (\<lambda>x. rev (f x)) (rev xs))"
  by (induction xs) simp_all

lemma concat_filter_nonempty: "concat (filter (\<lambda>b. b \<noteq> []) ps) = concat ps"
  by (induction ps) simp_all

lemma length_bin_digits: "n < 2 ^ w \<Longrightarrow> 0 < w \<Longrightarrow> length (bin_digits n) \<le> w"
proof (induction n arbitrary: w rule: bin_digits.induct)
  case (1 n)
  show ?case
  proof (cases "n < 2")
    case True
    with "1.prems" show ?thesis by (simp add: bin_digits.simps [of n])
  next
    case False
    from False "1.prems" have w2: "2 \<le> w"
      by (cases w; cases "w - 1") (auto simp add: not_less)
    then obtain w' where w: "w = Suc w'" and w': "0 < w'" by (cases w) auto
    from "1.prems" have "n div 2 < 2 ^ w'" by (simp add: w)
    from "1.IH" [OF False this w'] have "length (bin_digits (n div 2)) \<le> w'" .
    with False show ?thesis by (simp add: bin_digits.simps [of n] w)
  qed
qed

lemma length_format_bin: "n < 2 ^ w \<Longrightarrow> 0 < w \<Longrightarrow> length (format_bin w n) = w"
  using length_bin_digits [of n w] by (simp add: format_bin_def)

lemma index_flips_ok:
  assumes "length index_bin \<le> num_idx"
  shows "\<exists>xs. index_flips num_idx index_bin = Inr xs"
proof -
  have "\<exists>b. (case x of (k, idx_bit) \<Rightarrow>
         if idx_bit = CHR ''0'' then (if k < num_idx then Inr [X (Idx k)] else Inl IndexError)
         else (Inr [] :: error + qubit gate list)) = Inr b"
    if "x \<in> set (enumerate 0 index_bin)" for x
  proof -
    obtain k c where x: "x = (k, c)" by (cases x)
    from that assms have "k < num_idx" by (simp add: x in_set_enumerate_eq)
    then show ?thesis by (simp add: x)
  qed
  then show ?thesis unfolding index_flips_def collect_Inr_iff by blast
qed

lemma load_value_ok:
  assumes "length (format_bin num_idx i) \<le> num_idx" and "fst p < num_val"
  shows "\<exists>b. load_value num_idx num_val i p = Inr b"
proof -
  obtain vq c where p: "p = (vq, c)" by (cases p)
  from index_flips_ok [OF assms(1)] obtain xs
    where "index_flips num_idx (format_bin num_idx i) = Inr xs" by blast
  with assms(2) show ?thesis
    by (simp add: load_value_def p load_bit_def seq_gates_def)
qed

lemma load_unload_ok:
  assumes "0 < num_idx" and "length array \<le> 2 ^ num_idx"
    and "list_all (\<lambda>v. length v \<le> num_val) array"
  shows "\<exists>l u. load_array num_idx num_val array = Inr l
              \<and> unload_array num_idx num_val array = Inr u"
proof -
  have value_ok: "\<exists>b. load_value num_idx num_val i p = Inr b"
    if "i < length array" and "p \<in> set (enumerate 0 (rev (array ! i)))" for i p
  proof -
    from that(1) assms(2) have "i < 2 ^ num_idx" by simp
    then have len: "length (format_bin num_idx i) \<le> num_idx"
      using assms(1) by (simp add: length_format_bin)
    from that(1) assms(3) have "length (array ! i) \<le> num_val" by (simp add: list_all_length)
    moreover have "fst p < length (array ! i)"
    proof -
      obtain vq c where p: "p = (vq, c)" by (cases p)
      from that(2) show ?thesis by (simp add: p in_set_enumerate_eq)
    qed
    ultimately have "fst p < num_val" by simp
    with len show ?thesis by (rule load_value_ok)
  qed
  have "\<exists>l. load_array num_idx num_val array = Inr l"
    unfolding load_array_def collect_Inr_iff using value_ok by auto
  moreover have "\<exists>u. unload_array num_idx num_val array = Inr u"
    unfolding unload_array_def collect_Inr_iff using value_ok by auto
  ultimately show ?thesis by blast
qed

lemma enumerate_nth: "enumerate 0 s = map (\<lambda>k. (k, s ! k)) [0 ..< length s]"
proof (rule nth_equalityI)
  show "length (enumerate 0 s) = length (map (\<lambda>k. (k, s ! k)) [0 ..< length s])" by simp
next
  fix i assume "i < length (enumerate 0 s)"
  then have "i < length s" by simp
  then show "enumerate 0 s ! i = map (\<lambda>k. (k, s ! k)) [0 ..< length s] ! i"
    by (simp add: nth_enumerate_eq)
qed

lemma concat_map_if: "concat (map (\<lambda>x. if P x then [g x] else []) xs) = map g (filter P xs)"
  by (induction xs) simp_all

lemma filter_nonempty_map_if:
  assumes "\<And>x. g x \<noteq> []"
  shows "filter (\<lambda>b. b \<noteq> []) (map (\<lambda>x. if P x then g x else []) xs) = map g (filter P xs)"
  using assms by (induction xs) simp_all

lemma index_flips_explicit:
  assumes "index_flips num_idx index_bin = Inr xs"
  shows "xs = map (\<lambda>k. X (Idx k)) (zero_bits index_bin)"
proof -
  let ?body = "\<lambda>(k, idx_bit).
         if idx_bit = CHR ''0'' then (if k < num_idx then Inr [X (Idx k)] else Inl IndexError)
         else (Inr [] :: error + qubit gate list)"
  from assms have ok: "\<forall>x \<in> set (enumerate 0 index_bin). \<exists>b. ?body x = Inr b"
    and xs: "xs = concat (map (\<lambda>x. projr (?body x)) (enumerate 0 index_bin))"
    unfolding index_flips_def collect_Inr_iff by blast+
  have piece: "projr (?body x) = (if snd x = CHR ''0'' then [X (Idx (fst x))] else [])"
    if "x \<in> set (enumerate 0 index_bin)" for x
  proof -
    from ok that obtain b where b: "?body x = Inr b" by blast
    obtain k c where x: "x = (k, c)" by (cases x)
    from b show ?thesis by (auto simp add: x split: if_splits)
  qed
  have "map (\<lambda>x. projr (?body x)) (enumerate 0 index_bin)
      = map (\<lambda>x. if snd x = CHR ''0'' then [X (Idx (fst x))] else []) (enumerate 0 index_bin)"
    by (rule map_cong) (simp_all add: piece)
  then have "xs = concat (map (\<lambda>x. if snd x = CHR ''0'' then [X (Idx (fst x))] else [])
      (enumerate 0 index_bin))"
    by (simp only: xs)
  also have "\<dots> = concat (map (\<lambda>k. if index_bin ! k = CHR ''0'' then [X (Idx k)] else [])
      [0 ..< length index_bin])"
    by (simp add: enumerate_nth comp_def cong: if_cong)
  also have "\<dots> = map (\<lambda>k. X (Idx k)) (zero_bits index_bin)"
    unfolding zero_bits_def by (rule concat_map_if)
  finally show ?thesis .
qed

lemma load_bit_explicit:
  assumes "load_bit num_idx num_val (format_bin num_idx i) q = Inr b"
  shows "b = loader_block num_idx i q"
proof -
  from assms obtain xs where xs: "index_flips num_idx (format_bin num_idx i) = Inr xs"
    and b: "b = xs @ [MCX (map Idx [0 ..< num_idx]) (Val q)] @ xs"
    by (auto simp add: load_bit_def seq_gates_Inr_iff split: if_splits)
  from index_flips_explicit [OF xs] b show ?thesis by (simp add: loader_block_def)
qed

lemma load_value_explicit:
  assumes "load_value num_idx num_val i p = Inr b"
  shows "b = (if snd p = CHR ''1'' then loader_block num_idx i (fst p) else [])"
proof -
  obtain q c where p: "p = (q, c)" by (cases p)
  show ?thesis
  proof (cases "c = CHR ''1''")
    case True
    with assms have "load_bit num_idx num_val (format_bin num_idx i) q = Inr b"
      by (simp add: load_value_def p)
    from load_bit_explicit [OF this] True show ?thesis by (simp add: p)
  next
    case False
    with assms show ?thesis by (simp add: load_value_def p)
  qed
qed

lemma loader_block_nonempty: "loader_block num_idx i q \<noteq> []"
  by (simp add: loader_block_def)

lemma loader_block_shape: "load_block num_idx (loader_block num_idx i q)"
  unfolding load_block_def loader_block_def by blast

lemma one_bits_enumerate:
  "map fst (filter (\<lambda>p. snd p = CHR ''1'') (enumerate 0 (rev v))) = one_bits v"
  by (simp add: enumerate_nth one_bits_def filter_map comp_def)

lemma load_unload_blocks:
  assumes l: "load_array num_idx num_val array = Inr l"
    and u: "unload_array num_idx num_val array = Inr u"
  shows "l = concat (map (\<lambda>(i, q). loader_block num_idx i q) (set_bits array))"
    and "u = concat (map (\<lambda>(i, q). loader_block num_idx i q) (rev (set_bits array)))"
proof -
  let ?E = "\<lambda>i. enumerate 0 (rev (array ! i))"
  let ?lv = "load_value num_idx num_val"
  let ?n = "length array"
  let ?g = "\<lambda>i p. if snd p = CHR ''1'' then loader_block num_idx i (fst p) else []"
  define ps where "ps = concat (map (\<lambda>i. map (\<lambda>p. projr (?lv i p)) (?E i)) [0 ..< ?n])"
  from l have inner_ok: "\<forall>i \<in> set [0 ..< ?n]. \<exists>b. collect (?lv i) (?E i) = Inr b"
    and l_eq: "l = concat (map (\<lambda>i. projr (collect (?lv i) (?E i))) [0 ..< ?n])"
    unfolding load_array_def collect_Inr_iff by blast+
  from u have u_eq: "u = concat (map (\<lambda>i. projr (collect (?lv i) (rev (?E i)))) (rev [0 ..< ?n]))"
    unfolding unload_array_def collect_Inr_iff by blast
  have ok: "\<exists>b. ?lv i p = Inr b" if "i < ?n" "p \<in> set (?E i)" for i p
    using inner_ok that unfolding collect_Inr_iff by auto
  have fwd: "projr (collect (?lv i) (?E i)) = concat (map (\<lambda>p. projr (?lv i p)) (?E i))"
    if "i < ?n" for i
  proof -
    from ok that have "collect (?lv i) (?E i) = Inr (concat (map (\<lambda>p. projr (?lv i p)) (?E i)))"
      unfolding collect_Inr_iff by blast
    then show ?thesis by simp
  qed
  have bwd: "projr (collect (?lv i) (rev (?E i))) = concat (map (\<lambda>p. projr (?lv i p)) (rev (?E i)))"
    if "i < ?n" for i
  proof -
    from ok that
    have "collect (?lv i) (rev (?E i)) = Inr (concat (map (\<lambda>p. projr (?lv i p)) (rev (?E i))))"
      unfolding collect_Inr_iff by simp
    then show ?thesis by simp
  qed
  have "l = concat (map (\<lambda>i. concat (map (\<lambda>p. projr (?lv i p)) (?E i))) [0 ..< ?n])"
    unfolding l_eq by (rule arg_cong [where f = concat], rule map_cong) (simp_all add: fwd)
  then have l_ps: "l = concat ps"
    by (simp add: ps_def concat_concat_map)
  have "u = concat (map (\<lambda>i. concat (map (\<lambda>p. projr (?lv i p)) (rev (?E i)))) (rev [0 ..< ?n]))"
    unfolding u_eq by (rule arg_cong [where f = concat], rule map_cong) (simp_all add: bwd)
  then have u_ps: "u = concat (rev ps)"
    by (simp add: ps_def rev_concat_map concat_concat_map rev_map)
  have piece: "projr (?lv i p) = ?g i p" if "i < ?n" "p \<in> set (?E i)" for i p
  proof -
    from ok [OF that] obtain b where b: "?lv i p = Inr b" by blast
    from load_value_explicit [OF b] b show ?thesis by simp
  qed
  have row: "map (\<lambda>p. projr (?lv i p)) (?E i) = map (?g i) (?E i)" if "i < ?n" for i
    by (rule map_cong) (simp_all add: piece that)
  have "map (\<lambda>i. map (\<lambda>p. projr (?lv i p)) (?E i)) [0 ..< ?n]
      = map (\<lambda>i. map (?g i) (?E i)) [0 ..< ?n]"
    by (rule map_cong) (simp_all add: row)
  then have ps_g: "ps = concat (map (\<lambda>i. map (?g i) (?E i)) [0 ..< ?n])"
    by (simp only: ps_def)
  have row_blocks: "filter (\<lambda>b. b \<noteq> []) (map (?g i) (?E i))
      = map (\<lambda>q. loader_block num_idx i q) (one_bits (array ! i))" for i
  proof -
    have "filter (\<lambda>b. b \<noteq> []) (map (?g i) (?E i))
        = map (\<lambda>p. loader_block num_idx i (fst p)) (filter (\<lambda>p. snd p = CHR ''1'') (?E i))"
      by (rule filter_nonempty_map_if) (rule loader_block_nonempty)
    also have "\<dots> = map (\<lambda>q. loader_block num_idx i q)
        (map fst (filter (\<lambda>p. snd p = CHR ''1'') (?E i)))"
      by (simp add: comp_def)
    finally show ?thesis by (simp only: one_bits_enumerate)
  qed
  have blocks: "filter (\<lambda>b. b \<noteq> []) ps
      = map (\<lambda>(i, q). loader_block num_idx i q) (set_bits array)"
    by (simp add: ps_g filter_concat comp_def row_blocks set_bits_def map_concat)
  from l_ps have "l = concat (filter (\<lambda>b. b \<noteq> []) ps)"
    by (simp only: concat_filter_nonempty)
  then show "l = concat (map (\<lambda>(i, q). loader_block num_idx i q) (set_bits array))"
    by (simp only: blocks)
  from u_ps have "u = concat (filter (\<lambda>b. b \<noteq> []) (rev ps))"
    by (simp only: concat_filter_nonempty)
  then have "u = concat (rev (filter (\<lambda>b. b \<noteq> []) ps))"
    by (simp only: rev_filter)
  then show "u = concat (map (\<lambda>(i, q). loader_block num_idx i q) (rev (set_bits array)))"
    by (simp only: blocks rev_map)
qed

text \<open>
  C3, amended. Whenever \<open>load_array\<close> and \<open>unload_array\<close> both succeed (no register index
  out of range), \<open>load_array\<close> adds one block per set bit of a value, in the order of
  \<open>set_bits\<close>: for position \<open>i\<close> and value qubit \<open>q\<close> the block \<open>loader_block num_idx i q\<close>.
  \<open>unload_array\<close> adds the same blocks in reverse order, each block unchanged. The gates
  of \<open>load_array\<close> followed by those of \<open>unload_array\<close> leave every state vector as it was;
  so a value register in the all-zero state is in the all-zero state afterwards. Both
  succeed when the index register is not empty, the array has at most \<open>2 ^ num_idx\<close>
  entries and no value is longer than the value register.
\<close>

theorem load_unload_identity:
  "(load_array num_idx num_val array = Inr l \<and> unload_array num_idx num_val array = Inr u \<longrightarrow>
      l = concat (map (\<lambda>(i, q). loader_block num_idx i q) (set_bits array))
      \<and> u = concat (map (\<lambda>(i, q). loader_block num_idx i q) (rev (set_bits array)))
      \<and> (\<forall>\<psi>. run (l @ u) \<psi> = \<psi>)
      \<and> (\<forall>\<psi>. value_register_zero \<psi> \<longrightarrow> value_register_zero (run (l @ u) \<psi>)))
   \<and> (0 < num_idx \<and> length array \<le> 2 ^ num_idx
        \<and> list_all (\<lambda>v. length v \<le> num_val) array \<longrightarrow>
      (\<exists>l u. load_array num_idx num_val array = Inr l
             \<and> unload_array num_idx num_val array = Inr u))"
proof -
  have first: "l = concat (map (\<lambda>(i, q). loader_block num_idx i q) (set_bits array))
      \<and> u = concat (map (\<lambda>(i, q). loader_block num_idx i q) (rev (set_bits array)))
      \<and> (\<forall>\<psi>. run (l @ u) \<psi> = \<psi>)
      \<and> (\<forall>\<psi>. value_register_zero \<psi> \<longrightarrow> value_register_zero (run (l @ u) \<psi>))"
    if l: "load_array num_idx num_val array = Inr l"
      and u: "unload_array num_idx num_val array = Inr u"
  proof -
    define bs where "bs = map (\<lambda>(i, q). loader_block num_idx i q) (set_bits array)"
    have lb: "l = concat bs" unfolding bs_def using l u by (rule load_unload_blocks(1))
    have ub: "u = concat (rev bs)"
      using load_unload_blocks(2) [OF l u] by (simp add: bs_def rev_map)
    have block_inv: "run (loader_block num_idx i q) (run (loader_block num_idx i q) \<psi>) = \<psi>"
      for i q \<psi>
      using loader_block_shape by (rule load_block_self_inverse)
    have inv: "\<forall>b \<in> set bs. \<forall>\<psi>. run b (run b \<psi>) = \<psi>"
      by (auto simp add: bs_def block_inv)
    have id: "run (l @ u) \<psi> = \<psi>" for \<psi>
      unfolding lb ub run_append by (rule run_concat_rev [OF inv])
    from lb ub id show ?thesis by (simp add: bs_def rev_map)
  qed
  from first load_unload_ok [of num_idx array num_val] show ?thesis by blast
qed

lemmas loader_block_defs =
  loader_block_def zero_bits_def format_bin_def bin_digits.simps upt_rec

theorem load_unload_identity_witness:
  "load_array 2 2 [''01'', ''11'', ''10''] =
     Inr ([X (Idx 0), X (Idx 1), MCX [Idx 0, Idx 1] (Val 0), X (Idx 0), X (Idx 1)]
          @ [X (Idx 0), MCX [Idx 0, Idx 1] (Val 0), X (Idx 0)]
          @ [X (Idx 0), MCX [Idx 0, Idx 1] (Val 1), X (Idx 0)]
          @ [X (Idx 1), MCX [Idx 0, Idx 1] (Val 1), X (Idx 1)])
   \<and> unload_array 2 2 [''01'', ''11'', ''10''] =
     Inr ([X (Idx 1), MCX [Idx 0, Idx 1] (Val 1), X (Idx 1)]
          @ [X (Idx 0), MCX [Idx 0, Idx 1] (Val 1), X (Idx 0)]
          @ [X (Idx 0), MCX [Idx 0, Idx 1] (Val 0), X (Idx 0)]
          @ [X (Idx 0), X (Idx 1), MCX [Idx 0, Idx 1] (Val 0), X (Idx 0), X (Idx 1)])
   \<and> set_bits [''01'', ''11'', ''10''] = [(0, 0), (1, 0), (1, 1), (2, 1)]
   \<and> loader_block 2 0 0 = [X (Idx 0), X (Idx 1), MCX [Idx 0, Idx 1] (Val 0), X (Idx 0), X (Idx 1)]
   \<and> loader_block 2 1 0 = [X (Idx 0), MCX [Idx 0, Idx 1] (Val 0), X (Idx 0)]
   \<and> loader_block 2 1 1 = [X (Idx 0), MCX [Idx 0, Idx 1] (Val 1), X (Idx 0)]
   \<and> loader_block 2 2 1 = [X (Idx 1), MCX [Idx 0, Idx 1] (Val 1), X (Idx 1)]
   \<and> (\<forall>\<psi>. run (([X (Idx 0), X (Idx 1), MCX [Idx 0, Idx 1] (Val 0), X (Idx 0), X (Idx 1)]
                 @ [X (Idx 0), MCX [Idx 0, Idx 1] (Val 0), X (Idx 0)]
                 @ [X (Idx 0), MCX [Idx 0, Idx 1] (Val 1), X (Idx 0)]
                 @ [X (Idx 1), MCX [Idx 0, Idx 1] (Val 1), X (Idx 1)])
                @ ([X (Idx 1), MCX [Idx 0, Idx 1] (Val 1), X (Idx 1)]
                   @ [X (Idx 0), MCX [Idx 0, Idx 1] (Val 1), X (Idx 0)]
                   @ [X (Idx 0), MCX [Idx 0, Idx 1] (Val 0), X (Idx 0)]
                   @ [X (Idx 0), X (Idx 1), MCX [Idx 0, Idx 1] (Val 0), X (Idx 0), X (Idx 1)]))
               \<psi> = \<psi>)"
proof -
  let ?L = "[X (Idx 0), X (Idx 1), MCX [Idx 0, Idx 1] (Val 0), X (Idx 0), X (Idx 1)]
          @ [X (Idx 0), MCX [Idx 0, Idx 1] (Val 0), X (Idx 0)]
          @ [X (Idx 0), MCX [Idx 0, Idx 1] (Val 1), X (Idx 0)]
          @ [X (Idx 1), MCX [Idx 0, Idx 1] (Val 1), X (Idx 1)]"
  let ?U = "[X (Idx 1), MCX [Idx 0, Idx 1] (Val 1), X (Idx 1)]
          @ [X (Idx 0), MCX [Idx 0, Idx 1] (Val 1), X (Idx 0)]
          @ [X (Idx 0), MCX [Idx 0, Idx 1] (Val 0), X (Idx 0)]
          @ [X (Idx 0), X (Idx 1), MCX [Idx 0, Idx 1] (Val 0), X (Idx 0), X (Idx 1)]"
  have l: "load_array 2 2 [''01'', ''11'', ''10''] = Inr ?L"
    by (simp add: loader_defs)
  have u: "unload_array 2 2 [''01'', ''11'', ''10''] = Inr ?U"
    by (simp add: loader_defs)
  have ob: "one_bits ''01'' = [0]" "one_bits ''11'' = [0, 1]" "one_bits ''10'' = [1]"
    by (simp_all add: one_bits_def upt_rec)
  have sb: "set_bits [''01'', ''11'', ''10''] = [(0, 0), (1, 0), (1, 1), (2, 1)]"
    by (simp add: set_bits_def upt_rec ob)
  have b: "loader_block 2 0 0 = [X (Idx 0), X (Idx 1), MCX [Idx 0, Idx 1] (Val 0), X (Idx 0), X (Idx 1)]"
    "loader_block 2 1 0 = [X (Idx 0), MCX [Idx 0, Idx 1] (Val 0), X (Idx 0)]"
    "loader_block 2 1 1 = [X (Idx 0), MCX [Idx 0, Idx 1] (Val 1), X (Idx 0)]"
    "loader_block 2 2 1 = [X (Idx 1), MCX [Idx 0, Idx 1] (Val 1), X (Idx 1)]"
    by (simp_all add: loader_block_defs)
  from load_unload_identity [of 2 2 "[''01'', ''11'', ''10'']" ?L ?U] l u
  have "\<forall>\<psi>. run (?L @ ?U) \<psi> = \<psi>" by blast
  with l u sb b show ?thesis by blast
qed

section \<open>Properties of metrics.py and adaptive\_search.py\<close>

lemma max_from_best:
  "\<forall>x \<in> set post. snd x < snd best \<Longrightarrow> max_from best post = fst best"
  by (induction post) auto

lemma max_from_later:
  "snd best < v \<Longrightarrow> \<forall>x \<in> set pre. snd x < v \<Longrightarrow> \<forall>x \<in> set post. snd x < v \<Longrightarrow>
     max_from best (pre @ (k, v) # post) = k"
proof (induction pre arbitrary: best)
  case Nil
  then show ?case by (simp add: max_from_best)
next
  case (Cons x pre)
  then show ?case by simp
qed

lemma most_common_key_unique:
  assumes "distinct (map fst counts)" and "(k, v) \<in> set counts"
    and "\<forall>(k', v') \<in> set counts. k' \<noteq> k \<longrightarrow> v' < v"
  shows "most_common_key counts = Inr k"
proof -
  from assms(2) obtain pre post where split: "counts = pre @ (k, v) # post"
    by (auto simp add: in_set_conv_decomp)
  have smaller: "snd x < v" if "x \<in> set pre \<union> set post" for x
  proof -
    obtain k' v' where x: "x = (k', v')" by (cases x)
    from that assms(1) have "k' \<noteq> k" by (auto simp add: split x image_iff)
    moreover from that have "(k', v') \<in> set counts" by (auto simp add: split x)
    ultimately show ?thesis using assms(3) by (auto simp add: x)
  qed
  then have pre: "\<forall>x \<in> set pre. snd x < v" and post: "\<forall>x \<in> set post. snd x < v"
    by simp_all
  show ?thesis
  proof (cases pre)
    case Nil
    with post show ?thesis by (simp add: most_common_key_def split max_from_best)
  next
    case (Cons best pre')
    with pre have "snd best < v" and "\<forall>x \<in> set pre'. snd x < v" by auto
    from max_from_later [OF this post, of k] show ?thesis
      by (simp add: most_common_key_def split Cons)
  qed
qed

lemma bits_value_snoc:
  "bits_value (s @ [c]) = 2 * bits_value s + (if c = CHR ''1'' then 1 else 0)"
  by (simp add: bits_value_def)

lemma bits_value_sum:
  "bits_value s = (\<Sum>i < length s. if rev s ! i = CHR ''1'' then 2 ^ i else 0)"
proof (induction s rule: rev_induct)
  case Nil
  show ?case by (simp add: bits_value_def)
next
  case (snoc c s)
  let ?f = "\<lambda>i. if (c # rev s) ! i = CHR ''1'' then 2 ^ i else (0::int)"
  let ?g = "\<lambda>i. if rev s ! i = CHR ''1'' then 2 ^ i else (0::int)"
  have "(\<Sum>i < length (s @ [c]). if rev (s @ [c]) ! i = CHR ''1'' then 2 ^ i else (0::int))
      = (\<Sum>i < Suc (length s). ?f i)"
    by simp
  also have "\<dots> = ?f 0 + (\<Sum>i < length s. ?f (Suc i))"
    by (rule sum.lessThan_Suc_shift)
  also have "(\<Sum>i < length s. ?f (Suc i)) = (\<Sum>i < length s. 2 * ?g i)"
    by (rule sum.cong) simp_all
  also have "\<dots> = 2 * (\<Sum>i < length s. ?g i)"
    by (simp only: sum_distrib_left)
  finally show ?case by (simp add: bits_value_snoc snoc.IH)
qed

text \<open>
  C4. When the histogram has one key \<open>k\<close> whose count is greater than that of every
  other key, and \<open>k\<close> is a bit-string, \<open>estimate_marked_state_count\<close> returns \<open>r\<close>, the
  base-2 value of \<open>k\<close> (most significant bit first),
  \<open>theta_est = (r / 2 ^ p_count) * 2 * pi\<close> and
  \<open>M_est = n_substr * (1 - sin (theta_est / 2) ^ 2)\<close>, which is the closed form
  \<open>n_substr * (1 - sin (pi * r / 2 ^ p_count) ^ 2)\<close>. Floats are taken as reals.
\<close>

theorem estimate_marked_state_count_closed_form:
  assumes "distinct (map fst counts)" and "(k, v) \<in> set counts"
    and "\<forall>(k', v') \<in> set counts. k' \<noteq> k \<longrightarrow> v' < v"
    and "is_bitstring k"
  shows "\<exists>M_est theta_est r.
      estimate_marked_state_count counts p_count n_substr = Inr (M_est, theta_est, r)
      \<and> r = (\<Sum>i < length k. if rev k ! i = CHR ''1'' then 2 ^ i else 0)
      \<and> theta_est = (real_of_int r / 2 ^ p_count) * 2 * pi
      \<and> M_est = real_of_int n_substr * (1 - (sin (theta_est / 2)) ^ 2)
      \<and> M_est = real_of_int n_substr * (1 - (sin (pi * real_of_int r / 2 ^ p_count)) ^ 2)"
proof -
  define r where "r = bits_value k"
  define theta_est where "theta_est = (real_of_int r / 2 ^ p_count) * 2 * pi"
  define M_est where "M_est = real_of_int n_substr * (1 - (sin (theta_est / 2)) ^ 2)"
  have key: "most_common_key counts = Inr k"
    using assms(1-3) by (rule most_common_key_unique)
  have val: "int_base2 k = Inr r"
    using assms(4) by (simp add: int_base2_def r_def)
  have run: "estimate_marked_state_count counts p_count n_substr = Inr (M_est, theta_est, r)"
    by (simp only: estimate_marked_state_count_def key val sum.case M_est_def theta_est_def)
  have sum: "r = (\<Sum>i < length k. if rev k ! i = CHR ''1'' then 2 ^ i else 0)"
    unfolding r_def by (rule bits_value_sum)
  have half: "theta_est / 2 = pi * real_of_int r / 2 ^ p_count"
    by (simp add: theta_est_def)
  have closed: "M_est = real_of_int n_substr * (1 - (sin (pi * real_of_int r / 2 ^ p_count)) ^ 2)"
    by (simp only: M_est_def half)
  from run sum closed show ?thesis
    using theta_est_def M_est_def by blast
qed

theorem estimate_marked_state_count_closed_form_witness:
  "estimate_marked_state_count [(''0000'', 10), (''1000'', 24)] 4 8 = Inr (0, pi, 8)"
proof -
  have "distinct (map fst [(''0000'', 10::int), (''1000'', 24)])" by simp
  moreover have "(''1000'', 24) \<in> set [(''0000'', 10::int), (''1000'', 24)]" by simp
  moreover have "\<forall>(k', v') \<in> set [(''0000'', 10::int), (''1000'', 24)].
      k' \<noteq> ''1000'' \<longrightarrow> v' < 24" by simp
  moreover have "is_bitstring ''1000''" by (simp add: is_bitstring_def)
  ultimately obtain M_est theta_est r where
    "estimate_marked_state_count [(''0000'', 10), (''1000'', 24)] 4 8 = Inr (M_est, theta_est, r)"
    "r = (\<Sum>i < length ''1000''. if rev ''1000'' ! i = CHR ''1'' then 2 ^ i else 0)"
    "theta_est = (real_of_int r / 2 ^ 4) * 2 * pi"
    "M_est = real_of_int 8 * (1 - (sin (pi * real_of_int r / 2 ^ 4)) ^ 2)"
    using estimate_marked_state_count_closed_form
      [of "[(''0000'', 10), (''1000'', 24)]" "''1000''" 24 4 8]
    by blast
  moreover have "(\<Sum>i < length ''1000''. if rev ''1000'' ! i = CHR ''1'' then 2 ^ i else 0) = (8::int)"
    by (simp add: lessThan_Suc)
  ultimately show ?thesis by simp
qed

lemma derive_iterations_of_estimate:
  assumes "estimate_marked_state_count counts p_count n_substr = Inr (M_est, theta_est, r)"
  shows "derive_iterations n_substr M_est =
           Inr (if M_est < 1 / 10 ^ 6 then 0
                else py_round ((pi / 4) * sqrt (real_of_int n_substr / M_est)))"
proof (cases "M_est < 1 / 10 ^ 6")
  case True
  then show ?thesis by (simp add: derive_iterations_def)
next
  case False
  then have pos: "0 < M_est" by simp
  from assms obtain x where M: "M_est = real_of_int n_substr * (1 - (sin x) ^ 2)"
    by (auto simp add: estimate_marked_state_count_def split: sum.splits)
  have "0 \<le> 1 - (sin x) ^ 2" by (simp add: abs_square_le_1)
  with pos M have "0 < real_of_int n_substr"
    by (simp add: zero_less_mult_iff)
  with pos have "0 \<le> real_of_int n_substr / M_est" by simp
  with False pos show ?thesis by (simp add: derive_iterations_def not_less)
qed

lemma run_full_search_stages:
  assumes "run_full_search counting search input_text search_value hash_bits prime_index p_count
             = Inr res"
  shows "\<exists>valid_states n n_qubits substrings targets.
      classical_preprocessing input_text search_value hash_bits prime_index
        = Inr (valid_states, n, n_qubits, substrings, targets)
      \<and> estimate_marked_state_count (counting n_qubits p_count valid_states) p_count n
        = Inr (res_M_est res, res_theta_est res, res_r_measured res)
      \<and> derive_iterations n (res_M_est res) = Inr (res_optimal_iterations res)
      \<and> res_n_substr res = n
      \<and> res_counts_search res
        = search n_qubits valid_states (res_optimal_iterations res) substrings targets"
  using assms unfolding run_full_search_def
  by (auto split: sum.splits prod.splits)

lemma index_values_bitstrings:
  "list_all is_bitstring valid_states \<Longrightarrow>
     index_values valid_states = Inr (map bits_value valid_states)"
  by (induction valid_states) (simp_all add: int_base2_def)

lemma valid_shots_of_bitstrings:
  "list_all (\<lambda>(outcome, count). is_bitstring (rev outcome)) counts_search \<Longrightarrow>
     valid_shots_of valid_indices counts_search =
       Inr (\<Sum>(outcome, count)\<leftarrow>counts_search.
              if bits_value (rev outcome) \<in> valid_indices then count else 0)"
  by (induction counts_search) (auto simp add: int_base2_def)

lemma is_bitstring_rev: "is_bitstring (rev s) = is_bitstring s"
  by (simp add: is_bitstring_def list_all_iff)

lemma run_full_search_valid_fraction:
  assumes "run_full_search counting search input_text search_value hash_bits prime_index p_count
             = Inr res"
  shows "validate (res_filtered_states res) (res_counts_search res) = Inr (res_valid_fraction res)"
  using assms unfolding run_full_search_def
  by (auto split: sum.splits prod.splits)

text \<open>
  C8. On a search histogram of bit-string outcomes (and bit-string valid states), the
  validation stage counts the shots of the outcomes whose reversed bit-string, read as a
  base-2 number, is the number of a valid state; \<open>valid_fraction\<close> is that count divided
  by the total number of shots, and 1 when the total is not positive. No error is raised,
  in particular not for an empty histogram. The \<open>valid_fraction\<close> of a result of
  \<open>run_full_search\<close> is the value of this stage on the result's valid states and search
  histogram.
\<close>

theorem validation_stage:
  "(list_all is_bitstring valid_states
      \<and> list_all (\<lambda>(outcome, count). is_bitstring outcome) counts_search \<longrightarrow>
      validate valid_states counts_search =
        Inr (if 0 < sum_list (map snd counts_search)
             then real_of_int
                    (\<Sum>(outcome, count)\<leftarrow>counts_search.
                       if bits_value (rev outcome) \<in> bits_value ` set valid_states
                       then count else 0)
                  / real_of_int (sum_list (map snd counts_search))
             else 1))
   \<and> (run_full_search counting search input_text search_value hash_bits prime_index p_count
          = Inr res \<longrightarrow>
        validate (res_filtered_states res) (res_counts_search res)
          = Inr (res_valid_fraction res))"
proof -
  have "validate valid_states counts_search =
        Inr (if 0 < sum_list (map snd counts_search)
             then real_of_int
                    (\<Sum>(outcome, count)\<leftarrow>counts_search.
                       if bits_value (rev outcome) \<in> bits_value ` set valid_states
                       then count else 0)
                  / real_of_int (sum_list (map snd counts_search))
             else 1)"
    if vs: "list_all is_bitstring valid_states"
      and cs: "list_all (\<lambda>(outcome, count). is_bitstring outcome) counts_search"
  proof -
    from cs have "list_all (\<lambda>(outcome, count). is_bitstring (rev outcome)) counts_search"
      by (simp add: is_bitstring_rev)
    from valid_shots_of_bitstrings [OF this] index_values_bitstrings [OF vs]
    show ?thesis by (simp add: validate_def)
  qed
  with run_full_search_valid_fraction show ?thesis by blast
qed

lemma estimate_empty: "estimate_marked_state_count [] p_count n_substr = Inl ValueError"
  by (simp add: estimate_marked_state_count_def most_common_key_def)

text \<open>
  C10. On an empty counting histogram \<open>estimate_marked_state_count\<close> raises ValueError
  (\<open>max\<close> of an empty dict) and \<open>compute_statistics\<close> raises ZeroDivisionError.
  \<open>run_full_search\<close> raises ValueError when the preprocessing succeeds and the counting
  execution returns an empty histogram, and raises some error whenever the counting
  execution returns empty histograms.
\<close>

theorem empty_counting_histogram_fails:
  "estimate_marked_state_count [] p_count n_substr = Inl ValueError
   \<and> compute_statistics [] = Inl ZeroDivisionError
   \<and> (classical_preprocessing input_text search_value hash_bits prime_index
          = Inr (valid_states, n, n_qubits, substrings, targets)
        \<and> counting n_qubits p_count valid_states = [] \<longrightarrow>
        run_full_search counting search input_text search_value hash_bits prime_index p_count
          = Inl ValueError)
   \<and> ((\<forall>a b c. counting a b c = []) \<longrightarrow>
        (\<exists>e. run_full_search counting search input_text search_value hash_bits prime_index
               p_count = Inl e))"
proof -
  have a: "estimate_marked_state_count [] p_count n_substr = Inl ValueError"
    by (rule estimate_empty)
  have b: "compute_statistics [] = Inl ZeroDivisionError"
    by (simp add: compute_statistics_def)
  have c: "run_full_search counting search input_text search_value hash_bits prime_index p_count
          = Inl ValueError"
    if "classical_preprocessing input_text search_value hash_bits prime_index
          = Inr (valid_states, n, n_qubits, substrings, targets)"
      and "counting n_qubits p_count valid_states = []"
    using that by (simp add: run_full_search_def estimate_empty)
  have d: "\<exists>e. run_full_search counting search input_text search_value hash_bits prime_index
               p_count = Inl e"
    if "\<forall>a b c. counting a b c = []"
    using that by (auto simp add: run_full_search_def estimate_empty split: sum.splits prod.splits)
  from a b c d show ?thesis by blast
qed

lemma preprocessing_abcb:
  "classical_preprocessing ''abcb'' [''ab''] 8 1 =
     Inr ([''00'', ''10''], 3, 2, [''10000010'', ''10010011'', ''10000010''], [''10000010''])"
  by (simp add: preprocessing_defs hashing_defs)

theorem empty_counting_histogram_fails_witness:
  "estimate_marked_state_count [] 4 3 = Inl ValueError
   \<and> compute_statistics [] = Inl ZeroDivisionError
   \<and> run_full_search (\<lambda>n_qubits p_count valid_states. [])
        (\<lambda>n_qubits valid_states iterations possible_states targets. [(''00'', 1024)])
        ''abcb'' [''ab''] 8 1 4 = Inl ValueError"
  using empty_counting_histogram_fails
    [of 4 3 "''abcb''" "[''ab'']" 8 1 "[''00'', ''10'']" 3 2
        "[''10000010'', ''10010011'', ''10000010'']" "[''10000010'']"
        "\<lambda>n_qubits p_count valid_states. []"
        "\<lambda>n_qubits valid_states iterations possible_states targets. [(''00'', 1024)]"]
    preprocessing_abcb
  by simp

lemma run_full_search_abcb:
  "\<exists>res. run_full_search (\<lambda>n_qubits p_count valid_states. [(''0000'', 1024)])
        (\<lambda>n_qubits valid_states iterations possible_states targets.
           [(''00'', 3), (''01'', 5), (''10'', 2)])
        ''abcb'' [''ab''] 8 1 4 = Inr res
     \<and> res_filtered_states res = [''00'', ''10'']
     \<and> res_counts_search res = [(''00'', 3), (''01'', 5), (''10'', 2)]"
proof -
  have est: "estimate_marked_state_count [(''0000'', 1024)] 4 3 = Inr (3, 0, 0)"
    by (simp add: estimate_marked_state_count_def most_common_key_def int_base2_def
        is_bitstring_def bits_value_def)
  have der: "derive_iterations 3 3 = Inr (py_round (pi / 4))"
    by (simp add: derive_iterations_def)
  have val: "validate [''00'', ''10''] [(''00'', 3), (''01'', 5), (''10'', 2)] = Inr (4 / 5)"
    by (simp add: validate_def int_base2_def is_bitstring_def bits_value_def)
  have exp: "\<exists>t. expected_theta_of 2 3 = Inr t"
    by (simp add: expected_theta_of_def)
  have stat: "\<exists>m. compute_statistics [(''0000'', 1024)] = Inr m"
    by (simp add: compute_statistics_def int_base2_def is_bitstring_def bits_value_def)
  from val exp stat show ?thesis
    by (auto simp add: run_full_search_def preprocessing_abcb est der)
qed

theorem validation_stage_witness:
  "validate [''00'', ''10''] [(''00'', 3), (''01'', 5), (''10'', 2)] = Inr (4 / 5)
   \<and> validate [''00'', ''10''] [] = Inr 1
   \<and> (\<exists>res. run_full_search (\<lambda>n_qubits p_count valid_states. [(''0000'', 1024)])
          (\<lambda>n_qubits valid_states iterations possible_states targets.
             [(''00'', 3), (''01'', 5), (''10'', 2)])
          ''abcb'' [''ab''] 8 1 4 = Inr res
        \<and> res_valid_fraction res = 4 / 5)"
proof -
  have bits: "list_all is_bitstring [''00'', ''10'']"
    "list_all (\<lambda>(outcome, count). is_bitstring outcome) [(''00'', 3::int), (''01'', 5), (''10'', 2)]"
    "list_all (\<lambda>(outcome, count). is_bitstring outcome) ([] :: counts)"
    by (simp_all add: is_bitstring_def)
  have a: "validate [''00'', ''10''] [(''00'', 3), (''01'', 5), (''10'', 2)] = Inr (4 / 5)"
    using validation_stage [of "[''00'', ''10'']" "[(''00'', 3), (''01'', 5), (''10'', 2)]"] bits
    by (simp add: bits_value_def)
  have b: "validate [''00'', ''10''] [] = Inr 1"
    using validation_stage [of "[''00'', ''10'']" "[]"] bits by simp
  from run_full_search_abcb obtain res where
    res: "run_full_search (\<lambda>n_qubits p_count valid_states. [(''0000'', 1024)])
          (\<lambda>n_qubits valid_states iterations possible_states targets.
             [(''00'', 3), (''01'', 5), (''10'', 2)])
          ''abcb'' [''ab''] 8 1 4 = Inr res"
    and fs: "res_filtered_states res = [''00'', ''10'']"
    and cs: "res_counts_search res = [(''00'', 3), (''01'', 5), (''10'', 2)]"
    by blast
  from validation_stage [of "[]" "[]" _ _ _ _ _ _ _ res] res
  have "validate (res_filtered_states res) (res_counts_search res) = Inr (res_valid_fraction res)"
    by blast
  with a fs cs have "res_valid_fraction res = 4 / 5" by simp
  with a b res show ?thesis by blast
qed

text \<open>
  C7. For every \<open>M_est\<close> that \<open>estimate_marked_state_count\<close> returns, the derivation of
  the iteration count raises no error: the count is 0 when \<open>M_est < 1e-6\<close>, and otherwise
  the rounded value of \<open>(pi / 4) * sqrt (n_substr / M_est)\<close>. In every result of
  \<open>run_full_search\<close>, \<open>optimal_iterations\<close> is this count for the estimate \<open>M_est\<close> of the
  counting histogram and the number of windows \<open>n_substr\<close> of the preprocessing, and the
  search histogram is the one of the search execution run with this count.
\<close>

theorem derive_iterations_total:
  "(estimate_marked_state_count counts p_count n_substr = Inr (M_est, theta_est, r) \<longrightarrow>
      derive_iterations n_substr M_est =
        Inr (if M_est < 1 / 10 ^ 6 then 0
             else py_round ((pi / 4) * sqrt (real_of_int n_substr / M_est))))
   \<and> (run_full_search counting search input_text search_value hash_bits prime_index p_count
         = Inr res \<longrightarrow>
       (\<exists>valid_states n n_qubits substrings targets.
          classical_preprocessing input_text search_value hash_bits prime_index
            = Inr (valid_states, n, n_qubits, substrings, targets)
          \<and> estimate_marked_state_count (counting n_qubits p_count valid_states) p_count n
            = Inr (res_M_est res, res_theta_est res, res_r_measured res)
          \<and> res_n_substr res = n
          \<and> res_optimal_iterations res =
              (if res_M_est res < 1 / 10 ^ 6 then 0
               else py_round ((pi / 4) * sqrt (real_of_int n / res_M_est res)))
          \<and> res_counts_search res
            = search n_qubits valid_states (res_optimal_iterations res) substrings targets))"
proof -
  have second: "\<exists>valid_states n n_qubits substrings targets.
          classical_preprocessing input_text search_value hash_bits prime_index
            = Inr (valid_states, n, n_qubits, substrings, targets)
          \<and> estimate_marked_state_count (counting n_qubits p_count valid_states) p_count n
            = Inr (res_M_est res, res_theta_est res, res_r_measured res)
          \<and> res_n_substr res = n
          \<and> res_optimal_iterations res =
              (if res_M_est res < 1 / 10 ^ 6 then 0
               else py_round ((pi / 4) * sqrt (real_of_int n / res_M_est res)))
          \<and> res_counts_search res
            = search n_qubits valid_states (res_optimal_iterations res) substrings targets"
    if "run_full_search counting search input_text search_value hash_bits prime_index p_count
         = Inr res"
  proof -
    from run_full_search_stages [OF that] obtain valid_states n n_qubits substrings targets
      where pre: "classical_preprocessing input_text search_value hash_bits prime_index
          = Inr (valid_states, n, n_qubits, substrings, targets)"
        and est: "estimate_marked_state_count (counting n_qubits p_count valid_states) p_count n
          = Inr (res_M_est res, res_theta_est res, res_r_measured res)"
        and der: "derive_iterations n (res_M_est res) = Inr (res_optimal_iterations res)"
        and ns: "res_n_substr res = n"
        and cs: "res_counts_search res
          = search n_qubits valid_states (res_optimal_iterations res) substrings targets"
      by blast
    from derive_iterations_of_estimate [OF est] der
    have "res_optimal_iterations res =
        (if res_M_est res < 1 / 10 ^ 6 then 0
         else py_round ((pi / 4) * sqrt (real_of_int n / res_M_est res)))"
      by simp
    with pre est ns cs show ?thesis by blast
  qed
  from derive_iterations_of_estimate second show ?thesis by blast
qed

lemma pi_ge_three: "3 \<le> pi"
proof -
  have "sin (pi / 6) \<le> pi / 6" by (rule sin_x_le_x) simp
  then show ?thesis by (simp add: sin_30)
qed

lemma py_round_quarter_pi: "py_round (pi / 4) = 1"
proof -
  from pi_ge_three pi_less_4 have f: "\<lfloor>pi / 4\<rfloor> = 0" by (simp add: floor_eq_iff)
  from pi_ge_three have "1 / 2 < pi / 4" by simp
  with f show ?thesis by (simp add: py_round_def)
qed

theorem derive_iterations_total_witness:
  "derive_iterations 3 3 = Inr 1
   \<and> derive_iterations 3 0 = Inr 0
   \<and> (\<exists>res. run_full_search (\<lambda>n_qubits p_count valid_states. [(''0000'', 1024)])
          (\<lambda>n_qubits valid_states iterations possible_states targets. [(''00'', iterations)])
          ''abcb'' [''ab''] 8 1 4 = Inr res
        \<and> res_optimal_iterations res = 1
        \<and> res_counts_search res = [(''00'', 1)])
   \<and> (\<exists>res. run_full_search (\<lambda>n_qubits p_count valid_states. [(''1000'', 1024)])
          (\<lambda>n_qubits valid_states iterations possible_states targets. [(''00'', iterations)])
          ''abcb'' [''ab''] 8 1 4 = Inr res
        \<and> res_optimal_iterations res = 0
        \<and> res_counts_search res = [(''00'', 0)])"
proof -
  let ?search = "\<lambda>(n_qubits::nat) (valid_states::string list) (iterations::int)
      (possible_states::string list) (targets::string list). [(''00'', iterations)]"
  let ?c1 = "\<lambda>(n_qubits::nat) (p_count::nat) (valid_states::string list). [(''0000'', 1024::int)]"
  let ?c2 = "\<lambda>(n_qubits::nat) (p_count::nat) (valid_states::string list). [(''1000'', 1024::int)]"
  have est1: "estimate_marked_state_count [(''0000'', 1024)] 4 3 = Inr (3, 0, 0)"
    by (simp add: estimate_marked_state_count_def most_common_key_def int_base2_def
        is_bitstring_def bits_value_def)
  have est2: "estimate_marked_state_count [(''1000'', 1024)] 4 3 = Inr (0, pi, 8)"
    by (simp add: estimate_marked_state_count_def most_common_key_def int_base2_def
        is_bitstring_def bits_value_def)
  have der1: "derive_iterations 3 3 = Inr 1"
    using derive_iterations_total [where counts = "[(''0000'', 1024)]" and p_count = 4
        and n_substr = 3 and M_est = 3 and theta_est = 0 and r = 0] est1
    by (simp add: py_round_quarter_pi)
  have der2: "derive_iterations 3 0 = Inr 0"
    using derive_iterations_total [where counts = "[(''1000'', 1024)]" and p_count = 4
        and n_substr = 3 and M_est = 0 and theta_est = pi and r = 8] est2 by simp
  have exp: "\<exists>t. expected_theta_of 2 3 = Inr t"
    by (simp add: expected_theta_of_def)
  have val1: "\<exists>f. validate [''00'', ''10''] [(''00'', 1)] = Inr f"
    by (simp add: validate_def int_base2_def is_bitstring_def bits_value_def)
  have val2: "\<exists>f. validate [''00'', ''10''] [(''00'', 0)] = Inr f"
    by (simp add: validate_def int_base2_def is_bitstring_def bits_value_def)
  have stat1: "\<exists>m. compute_statistics [(''0000'', 1024)] = Inr m"
    by (simp add: compute_statistics_def int_base2_def is_bitstring_def bits_value_def)
  have stat2: "\<exists>m. compute_statistics [(''1000'', 1024)] = Inr m"
    by (simp add: compute_statistics_def int_base2_def is_bitstring_def bits_value_def)
  from val1 exp stat1 obtain res1 where
    r1: "run_full_search ?c1 ?search ''abcb'' [''ab''] 8 1 4 = Inr res1"
    by (auto simp add: run_full_search_def preprocessing_abcb est1 der1)
  from val2 exp stat2 obtain res2 where
    r2: "run_full_search ?c2 ?search ''abcb'' [''ab''] 8 1 4 = Inr res2"
    by (auto simp add: run_full_search_def preprocessing_abcb est2 der2)
  from derive_iterations_total [where counting = ?c1 and search = ?search
      and input_text = "''abcb''" and search_value = "[''ab'']" and hash_bits = 8
      and prime_index = 1 and p_count = 4 and res = res1]
    r1 preprocessing_abcb est1
  have a: "res_optimal_iterations res1 = 1 \<and> res_counts_search res1 = [(''00'', 1)]"
    by (auto simp add: py_round_quarter_pi)
  from derive_iterations_total [where counting = ?c2 and search = ?search
      and input_text = "''abcb''" and search_value = "[''ab'']" and hash_bits = 8
      and prime_index = 1 and p_count = 4 and res = res2]
    r2 preprocessing_abcb est2
  have b: "res_optimal_iterations res2 = 0 \<and> res_counts_search res2 = [(''00'', 0)]"
    by auto
  from der1 der2 r1 r2 a b show ?thesis by blast
qed

section \<open>Properties of utils.py\<close>

lemma py_range_step_slots:
  assumes "1 \<le> L"
  shows "py_range_step (input_length - int L + 1) L = map (\<lambda>j. j * L) [0 ..< nat (input_length div int L)]"
proof (cases "int L \<le> input_length")
  case True
  from assms have "(input_length - int L + int L) div int L = (input_length - int L) div int L + 1"
    by (simp only: div_add_self2)
  then have "(input_length - int L) div int L + 1 = input_length div int L" by simp
  with True show ?thesis by (simp add: py_range_step_def)
next
  case False
  from assms have "0 < int L" by simp
  from pos_imp_zdiv_pos_iff [OF this, of input_length] False
  have "input_length div int L \<le> 0" by simp
  with False show ?thesis by (simp add: py_range_step_def)
qed

lemma length_filler: "length (concat (replicate n ''xxx'')) = 3 * n"
  by (induction n) simp_all

lemma length_base_text:
  assumes "1 \<le> L" and "L \<le> 3" and "0 \<le> input_length"
  shows "length (py_prefix (concat (replicate (nat (input_length div int L + 1)) ''xxx''))
           input_length) = nat input_length"
proof -
  from assms(1) have "input_length mod int L < int L" by simp
  moreover have "input_length = int L * (input_length div int L) + input_length mod int L"
    by simp
  ultimately have "input_length < int L * (input_length div int L) + int L" by linarith
  also have "\<dots> = int L * (input_length div int L + 1)"
    by (simp add: distrib_left)
  finally have less: "input_length < int L * (input_length div int L + 1)" .
  from assms have nonneg: "0 \<le> input_length div int L + 1"
    by (simp add: pos_imp_zdiv_nonneg_iff add_nonneg_nonneg)
  from assms(2) have "int L \<le> 3" by simp
  from mult_right_mono [OF this nonneg] less
  have "input_length < 3 * (input_length div int L + 1)" by simp
  with nonneg have "int (nat input_length) \<le> int (3 * nat (input_length div int L + 1))"
    using assms(3) by simp
  then have "nat input_length \<le> 3 * nat (input_length div int L + 1)"
    by (simp only: of_nat_le_iff)
  with assms(3) show ?thesis by (simp add: py_prefix_def length_filler)
qed

lemma slice_length:
  "p + L \<le> length base \<Longrightarrow> length sv = L \<Longrightarrow>
     length (slice_assign base p (p + L) sv) = length base"
  by (simp add: slice_assign_def)

lemma slice_hit:
  "p + L \<le> length base \<Longrightarrow> length sv = L \<Longrightarrow>
     take L (drop p (slice_assign base p (p + L) sv)) = sv"
  by (simp add: slice_assign_def)

lemma slice_frame:
  assumes "p + L \<le> length base" and "length sv = L" and "q + L \<le> p \<or> p + L \<le> q"
  shows "take L (drop q (slice_assign base p (p + L) sv)) = take L (drop q base)"
  using assms(3)
proof
  assume before: "q + L \<le> p"
  with assms(1) have "take L (drop q (take p base)) = take L (drop q base)"
    by (simp add: drop_take min_def)
  with before assms(1) show ?thesis by (simp add: slice_assign_def)
next
  assume after: "p + L \<le> q"
  then have "q - p - L + (p + L) = q" by simp
  with after assms(1,2) show ?thesis by (simp add: slice_assign_def)
qed

lemma embed_length:
  "\<forall>(p, sv) \<in> set prs. p + L \<le> length base \<and> length sv = L \<Longrightarrow>
     length (embed_values L base prs) = length base"
proof (induction prs arbitrary: base)
  case Nil
  show ?case by simp
next
  case (Cons pr prs)
  obtain p sv where pr: "pr = (p, sv)" by (cases pr)
  from Cons.prems have len: "length (slice_assign base p (p + L) sv) = length base"
    by (simp add: pr slice_length)
  with Cons.prems have
    "\<forall>(p', sv') \<in> set prs. p' + L \<le> length (slice_assign base p (p + L) sv) \<and> length sv' = L"
    by simp
  from Cons.IH [OF this] len show ?case by (simp add: pr)
qed

lemma embed_frame:
  "\<forall>(p, sv) \<in> set prs. p + L \<le> length base \<and> length sv = L \<and> (q + L \<le> p \<or> p + L \<le> q) \<Longrightarrow>
     take L (drop q (embed_values L base prs)) = take L (drop q base)"
proof (induction prs arbitrary: base)
  case Nil
  show ?case by simp
next
  case (Cons pr prs)
  obtain p sv where pr: "pr = (p, sv)" by (cases pr)
  from Cons.prems have p: "p + L \<le> length base" "length sv = L" "q + L \<le> p \<or> p + L \<le> q"
    by (simp_all add: pr)
  have len: "length (slice_assign base p (p + L) sv) = length base"
    using p(1,2) by (rule slice_length)
  with Cons.prems have "\<forall>(p', sv') \<in> set prs.
      p' + L \<le> length (slice_assign base p (p + L) sv) \<and> length sv' = L
      \<and> (q + L \<le> p' \<or> p' + L \<le> q)"
    by simp
  from Cons.IH [OF this] slice_frame [OF p] show ?case by (simp add: pr)
qed

lemma embed_hit:
  assumes "\<forall>(p, sv) \<in> set prs. p + L \<le> length base \<and> length sv = L"
    and "distinct (map fst prs)"
    and "\<forall>p \<in> fst ` set prs. \<forall>q \<in> fst ` set prs. p \<noteq> q \<longrightarrow> q + L \<le> p \<or> p + L \<le> q"
    and "(p, sv) \<in> set prs"
  shows "take L (drop p (embed_values L base prs)) = sv"
  using assms
proof (induction prs arbitrary: base)
  case Nil
  then show ?case by simp
next
  case (Cons pr prs)
  obtain p0 sv0 where pr: "pr = (p0, sv0)" by (cases pr)
  let ?base = "slice_assign base p0 (p0 + L) sv0"
  from Cons.prems(1) have p0: "p0 + L \<le> length base" "length sv0 = L"
    by (simp_all add: pr)
  have len: "length ?base = length base" using p0 by (rule slice_length)
  from Cons.prems(1) len have fits: "\<forall>(p', sv') \<in> set prs. p' + L \<le> length ?base \<and> length sv' = L"
    by simp
  show ?case
  proof (cases "(p, sv) = (p0, sv0)")
    case True
    have "\<forall>(p', sv') \<in> set prs. p' + L \<le> length ?base \<and> length sv' = L
        \<and> (p0 + L \<le> p' \<or> p' + L \<le> p0)"
    proof (clarify)
      fix p' sv' assume in_rest: "(p', sv') \<in> set prs"
      from Cons.prems(2) have "p0 \<notin> fst ` set prs" by (simp add: pr)
      with in_rest have "p' \<noteq> p0" by force
      moreover from in_rest have "p' \<in> fst ` set (pr # prs)" by force
      moreover have "p0 \<in> fst ` set (pr # prs)" by (simp add: pr)
      ultimately have "p0 + L \<le> p' \<or> p' + L \<le> p0" using Cons.prems(3) by blast
      with fits in_rest show "p' + L \<le> length ?base \<and> length sv' = L
        \<and> (p0 + L \<le> p' \<or> p' + L \<le> p0)" by auto
    qed
    from embed_frame [OF this] slice_hit [OF p0] True show ?thesis by (simp add: pr)
  next
    case False
    with Cons.prems(4) have in_rest: "(p, sv) \<in> set prs" by (auto simp add: pr)
    from Cons.prems(2) have d: "distinct (map fst prs)" by simp
    from Cons.prems(3) have s: "\<forall>p \<in> fst ` set prs. \<forall>q \<in> fst ` set prs.
        p \<noteq> q \<longrightarrow> q + L \<le> p \<or> p + L \<le> q" by simp
    from Cons.IH [OF fits d s in_rest] show ?thesis by (simp add: pr)
  qed
qed

lemma admissible_take: "admissible_sample (\<lambda>population k. take k population)"
  by (auto simp add: admissible_sample_def dest: in_set_takeD)

lemma admissible_take_rev: "admissible_sample (\<lambda>population k. take k (rev population))"
  by (auto simp add: admissible_sample_def dest: in_set_takeD)

lemma replicate_numeral_unfold: "replicate (numeral k) x = x # replicate (pred_numeral k) x"
  by (simp add: numeral_eq_Suc)

lemmas utils_defs =
  generate_input_text_fixed_def py_range_step_def py_prefix_def slice_assign_def upt_rec
  replicate_numeral_unfold

text \<open>
  C9, as stated. Two choices that \<open>random.sample\<close> can make (the first slots, the last
  slots in reverse order) give different texts for the same arguments, so the positions
  are not the same on every call. With a search value of four characters the text for
  \<open>input_length = 20\<close> can have 18 characters: the filler is three characters long,
  repeated \<open>input_length // L + 1\<close> times.
\<close>

theorem generate_input_text_fixed_random_positions:
  "admissible_sample (\<lambda>population k. take k population)
   \<and> admissible_sample (\<lambda>population k. take k (rev population))
   \<and> generate_input_text_fixed (\<lambda>population k. take k population) 10 [''ing'', ''pat'']
       = Inr ''ingpatxxxx''
   \<and> generate_input_text_fixed (\<lambda>population k. take k (rev population)) 10 [''ing'', ''pat'']
       = Inr ''xxxpatingx''
   \<and> generate_input_text_fixed (\<lambda>population k. take k population) 20 [''abcd'']
       = Inr ''abcdxxxxxxxxxxxxxx''
   \<and> length ''abcdxxxxxxxxxxxxxx'' = 18"
proof -
  have a: "generate_input_text_fixed (\<lambda>population k. take k population) 10 [''ing'', ''pat'']
       = Inr ''ingpatxxxx''"
    by (simp add: utils_defs)
  have b: "generate_input_text_fixed (\<lambda>population k. take k (rev population)) 10
       [''ing'', ''pat''] = Inr ''xxxpatingx''"
    by (simp add: utils_defs)
  have c: "generate_input_text_fixed (\<lambda>population k. take k population) 20 [''abcd'']
       = Inr ''abcdxxxxxxxxxxxxxx''"
    by (simp add: utils_defs)
  from a b c admissible_take admissible_take_rev show ?thesis by simp
qed

text \<open>
  C9, amended. For search values of one length \<open>L\<close> with \<open>1 \<le> L \<le> 3\<close>, and every choice
  that \<open>random.sample\<close> can make: \<open>generate_input_text_fixed\<close> raises ValueError when
  there are more search values than slots (\<open>input_length // L\<close>); otherwise it returns a
  text of exactly \<open>input_length\<close> characters in which search value \<open>i\<close> stands at the
  \<open>i\<close>-th selected position, the selected positions being distinct multiples of \<open>L\<close>
  chosen by \<open>random.sample\<close> among the slots.
\<close>

theorem generate_input_text_fixed_embeds:
  assumes "admissible_sample sample" and "search_values \<noteq> []"
    and "\<forall>v \<in> set search_values. length v = L" and "1 \<le> L" and "L \<le> 3"
  shows "(nat (input_length div int L) < length search_values \<longrightarrow>
           generate_input_text_fixed sample input_length search_values = Inl ValueError)
    \<and> (length search_values \<le> nat (input_length div int L) \<longrightarrow>
         (\<exists>text selected.
            selected = sample (py_range_step (input_length - int L + 1) L) (length search_values)
            \<and> generate_input_text_fixed sample input_length search_values = Inr text
            \<and> int (length text) = input_length
            \<and> distinct selected
            \<and> (\<forall>i < length search_values.
                  L dvd selected ! i \<and> selected ! i + L \<le> length text
                  \<and> take L (drop (selected ! i) text) = search_values ! i)))"
proof -
  obtain first others where sv: "search_values = first # others"
    using assms(2) by (cases search_values) auto
  from assms(3) have first: "length first = L" by (simp add: sv)
  define m where "m = nat (input_length div int L)"
  define slots where "slots = py_range_step (input_length - int L + 1) L"
  have slots: "slots = map (\<lambda>j. j * L) [0 ..< m]"
    unfolding slots_def m_def using assms(4) by (rule py_range_step_slots)
  then have len_slots: "length slots = m" by simp
  have fail: "generate_input_text_fixed sample input_length search_values = Inl ValueError"
    if "m < length search_values"
    using that assms(4) len_slots
    by (simp add: generate_input_text_fixed_def sv first slots_def)
  have ok: "\<exists>text selected.
            selected = sample slots (length search_values)
            \<and> generate_input_text_fixed sample input_length search_values = Inr text
            \<and> int (length text) = input_length
            \<and> distinct selected
            \<and> (\<forall>i < length search_values.
                  L dvd selected ! i \<and> selected ! i + L \<le> length text
                  \<and> take L (drop (selected ! i) text) = search_values ! i)"
    if enough: "length search_values \<le> m"
  proof -
    define selected where "selected = sample slots (length search_values)"
    define base where
      "base = py_prefix (concat (replicate (nat (input_length div int L + 1)) ''xxx'')) input_length"
    define out where "out = embed_values L base (zip selected search_values)"
    from enough sv have "0 < m" by simp
    then have div_pos: "0 < input_length div int L" by (simp add: m_def)
    with assms(4) have nonneg: "0 \<le> input_length"
      by (simp add: pos_imp_zdiv_pos_iff)
    from assms(4) have "0 \<le> input_length mod int L" by simp
    moreover have "input_length = int L * (input_length div int L) + input_length mod int L"
      by simp
    ultimately have "int L * (input_length div int L) \<le> input_length" by linarith
    moreover from div_pos have "int m = input_length div int L" by (simp add: m_def)
    ultimately have "int (m * L) \<le> input_length" by (simp add: mult.commute)
    then have mL: "m * L \<le> nat input_length" by linarith
    have len_base: "length base = nat input_length"
      unfolding base_def using assms(4,5) nonneg by (rule length_base_text)
    have "distinct slots"
      using assms(4) by (simp add: slots distinct_map inj_on_def)
    with assms(1) enough len_slots have
      sel_len: "length selected = length search_values"
      and sel_dist: "distinct selected"
      and sel_sub: "set selected \<subseteq> set slots"
      unfolding admissible_sample_def selected_def by auto
    have multiple: "\<exists>j. j < m \<and> p = j * L" if "p \<in> set selected" for p
    proof -
      from that sel_sub have "p \<in> set (map (\<lambda>j. j * L) [0 ..< m])"
        unfolding slots by (rule subsetD [rotated])
      then obtain j where "j \<in> set [0 ..< m]" and "p = j * L"
        unfolding set_map by (rule imageE)
      then show ?thesis by auto
    qed
    have slot: "L dvd p \<and> p + L \<le> length base" if "p \<in> set selected" for p
    proof -
      from multiple [OF that] obtain j where j: "j < m" and p: "p = j * L" by blast
      from j have "Suc j \<le> m" by simp
      then have "Suc j * L \<le> m * L" by (rule mult_le_mono1)
      with mL have "j * L + L \<le> nat input_length" by simp
      with p len_base show ?thesis by simp
    qed
    have apart: "q + L \<le> p \<or> p + L \<le> q"
      if "p \<in> set selected" "q \<in> set selected" "p \<noteq> q" for p q
    proof -
      from multiple [OF that(1)] obtain j where p: "p = j * L" by blast
      from multiple [OF that(2)] obtain j' where q: "q = j' * L" by blast
      have "j \<noteq> j'"
      proof
        assume "j = j'"
        then have "p = q" by (simp only: p q)
        with that(3) show False by simp
      qed
      then have "Suc j' \<le> j \<or> Suc j \<le> j'" by auto
      then have "Suc j' * L \<le> j * L \<or> Suc j * L \<le> j' * L"
        using mult_le_mono1 [of "Suc j'" j L] mult_le_mono1 [of "Suc j" j' L] by blast
      then show ?thesis unfolding p q by (auto simp add: add.commute)
    qed
    have fst_zip: "map fst (zip selected search_values) = selected"
      using sel_len by simp
    then have fst_set: "fst ` set (zip selected search_values) = set selected"
      by (metis set_map)
    have fits: "\<forall>(p, v) \<in> set (zip selected search_values). p + L \<le> length base \<and> length v = L"
      using slot assms(3) by (auto dest: set_zip_leftD set_zip_rightD)
    have dist: "distinct (map fst (zip selected search_values))"
      using sel_dist by (simp only: fst_zip)
    have sep: "\<forall>p \<in> fst ` set (zip selected search_values).
        \<forall>q \<in> fst ` set (zip selected search_values). p \<noteq> q \<longrightarrow> q + L \<le> p \<or> p + L \<le> q"
      unfolding fst_set using apart by blast
    have len_text: "length out = length base"
      unfolding out_def using fits by (rule embed_length)
    have gen: "generate_input_text_fixed sample input_length search_values = Inr out"
      using enough assms(4) len_slots
      by (simp add: generate_input_text_fixed_def sv first out_def base_def selected_def slots_def)
    have each: "L dvd selected ! i \<and> selected ! i + L \<le> length out
        \<and> take L (drop (selected ! i) out) = search_values ! i"
      if "i < length search_values" for i
    proof -
      from that sel_len have mem: "(selected ! i, search_values ! i) \<in> set (zip selected search_values)"
        by (auto simp add: set_zip)
      from that sel_len have "selected ! i \<in> set selected" by simp
      from slot [OF this] embed_hit [OF fits dist sep mem] len_text
      show ?thesis by (simp add: out_def)
    qed
    from len_text len_base nonneg have "int (length out) = input_length" by simp
    with gen sel_dist each selected_def show ?thesis by blast
  qed
  from fail ok show ?thesis unfolding m_def slots_def by blast
qed

theorem generate_input_text_fixed_embeds_witness:
  "generate_input_text_fixed (\<lambda>population k. take k (rev population)) 10 [''ing'', ''pat'']
     = Inr ''xxxpatingx''
   \<and> int (length ''xxxpatingx'') = 10
   \<and> generate_input_text_fixed (\<lambda>population k. take k (rev population)) 5 [''ing'', ''pat'']
     = Inl ValueError"
proof -
  have hyps: "[''ing'', ''pat''] \<noteq> []" "\<forall>v \<in> set [''ing'', ''pat'']. length v = 3"
    "1 \<le> (3::nat)" "(3::nat) \<le> 3"
    by simp_all
  note inst = generate_input_text_fixed_embeds [OF admissible_take_rev hyps]
  have a: "generate_input_text_fixed (\<lambda>population k. take k (rev population)) 10
      [''ing'', ''pat''] = Inr ''xxxpatingx''"
    by (simp add: utils_defs)
  from inst [of 5] have b: "generate_input_text_fixed (\<lambda>population k. take k (rev population)) 5
      [''ing'', ''pat''] = Inl ValueError"
    by simp
  from inst [of 10] a have "int (length ''xxxpatingx'') = 10" by auto
  with a b show ?thesis by simp
qed

end
